theory Spec2Isabelle
  imports Complex_Main "HOL-Library.Word"
begin

section \<open>Python values used by the packer\<close>

text \<open>
  A Python float is modelled by its mathematical value: a finite float is a real number,
  and the three non-finite floats are constructors of their own. Rounding is not modelled.
\<close>

datatype pyfloat = Fin real | PosInf | NegInf | NaN

datatype error = AssertionError | IndexError | ZeroDivisionError | ValueError | RuntimeError

text \<open>\<^verbatim>\<open>xs[n:]\<close> and \<^verbatim>\<open>xs[:n]\<close> for a Python integer \<open>n\<close>: a negative bound counts from the end
  and is clipped at the front of the list.\<close>

definition slice_from :: "int \<Rightarrow> 'a list \<Rightarrow> 'a list" where
  "slice_from n xs = (if n < 0 then drop (nat (int (length xs) + n)) xs else drop (nat n) xs)"

definition slice_to :: "int \<Rightarrow> 'a list \<Rightarrow> 'a list" where
  "slice_to n xs = (if n < 0 then take (nat (int (length xs) + n)) xs else take (nat n) xs)"

text \<open>\<^verbatim>\<open>[x] * n\<close>: the empty list when \<open>n\<close> is negative.\<close>

definition repeat :: "'a \<Rightarrow> int \<Rightarrow> 'a list" where
  "repeat x n = replicate (nat n) x"

text \<open>\<^verbatim>\<open>value or float("nan")\<close>: \<open>None\<close> and the float zero are falsy, every other float
  (NaN included) is truthy and is returned as it is.\<close>

fun or_nan :: "pyfloat option \<Rightarrow> pyfloat" where
  "or_nan None = NaN"
| "or_nan (Some (Fin x)) = (if x = 0 then NaN else Fin x)"
| "or_nan (Some v) = v"

section \<open>tokenize.py: TokenizedResult\<close>

record token_logprob =
  token :: string
  logprob :: "pyfloat option"

record tokenized_result =
  conversation :: "(string \<times> string) list"
  reward :: pyfloat
  advantage :: pyfloat
  deferred :: bool
  chat_template :: string
  chat :: string
  tokens :: "string list"
  token_ids :: "int list"
  input_pos :: "int list"
  assistant_mask :: "int list"
  token_logprobs :: "token_logprob list option"
  prompt_id :: int
  prompt_length :: int

definition without_prompt :: "tokenized_result \<Rightarrow> tokenized_result" where
  "without_prompt self =
    (let assistant_mask' = slice_from (prompt_length self) (assistant_mask self) in
     \<lparr> conversation = conversation self,
       reward = reward self,
       advantage = advantage self,
       deferred = deferred self,
       chat_template = chat_template self,
       chat = chat self,
       tokens = slice_from (prompt_length self) (tokens self),
       token_ids = slice_from (prompt_length self) (token_ids self),
       input_pos = slice_from (prompt_length self) (input_pos self),
       assistant_mask = assistant_mask',
       token_logprobs =
         (case token_logprobs self of
            None \<Rightarrow> None
          | Some lps \<Rightarrow> Some (slice_from (int (length lps) - sum_list assistant_mask') lps)),
       prompt_id = prompt_id self,
       prompt_length = 0 \<rparr>)"

section \<open>tokenize.py: the grouping pass of TaskResultTokenizer.__call__\<close>

text \<open>\<^verbatim>\<open>zip(*lists)\<close>: the columns of the lists, as many as the shortest list has entries;
  no column at all when there is no list.\<close>

definition zip_star :: "'a list list \<Rightarrow> 'a list list" where
  "zip_star xss =
    (if xss = [] then []
     else map (\<lambda>i. map (\<lambda>xs. xs ! i) xss)
            [0 ..< foldr min (map length (tl xss)) (length (hd xss))])"

definition common_prompt_length :: "tokenized_result list \<Rightarrow> nat" where
  "common_prompt_length tokenized_results =
     length (takeWhile (\<lambda>x. card (set x) = 1) (zip_star (map token_ids tokenized_results)))"

text \<open>\<^verbatim>\<open>mask[:n] = [0] * n\<close> for \<open>n \<ge> 0\<close>: the first \<open>n\<close> entries (those that exist) are replaced
  by \<open>n\<close> zeros.\<close>

definition zero_prefix :: "nat \<Rightarrow> int list \<Rightarrow> int list" where
  "zero_prefix n am = replicate n 0 @ drop n am"

text \<open>
  The part of \<^verbatim>\<open>__call__\<close> after the results of one task have been tokenized (in shuffled
  order): \<open>w\<close> is the value drawn by \<^verbatim>\<open>random.randint(-(2**63), 2**63 - 1)\<close>, a signed
  64-bit integer.
\<close>

definition group_tokenized_results ::
  "64 word \<Rightarrow> tokenized_result list \<Rightarrow> tokenized_result list" where
  "group_tokenized_results w tokenized_results =
    (let prompt_id' = sint w;
         prompt_length' = common_prompt_length tokenized_results
     in map (\<lambda>result. result\<lparr> prompt_id := prompt_id',
                               prompt_length := int prompt_length',
                               assistant_mask := zero_prefix prompt_length' (assistant_mask result) \<rparr>)
            tokenized_results)"

section \<open>pack.py: packed_tensors_from_tokenized_results\<close>

text \<open>The nine lists of rows the loop builds, and the number of random group ids drawn so far.\<close>

record pack_state =
  token_ids_rows :: "int list list"
  group_ids_rows :: "int list list"
  parent_ids_rows :: "int list list"
  input_pos_rows :: "int list list"
  assistant_mask_rows :: "int list list"
  logprobs_rows :: "pyfloat list list"
  advantages_rows :: "pyfloat list list"
  weights_rows :: "real list list"
  deferred_rows :: "bool list list"
  draws :: nat

definition init_state :: pack_state where
  "init_state =
    \<lparr> token_ids_rows = [[]], group_ids_rows = [[]], parent_ids_rows = [[]],
      input_pos_rows = [[]], assistant_mask_rows = [[]], logprobs_rows = [[]],
      advantages_rows = [[]], weights_rows = [[]], deferred_rows = [[]], draws = 0 \<rparr>"

text \<open>\<^verbatim>\<open>rows.append([])\<close>, \<^verbatim>\<open>rows[-1].extend(xs)\<close> and \<^verbatim>\<open>rows[-1] = rows[-1][:seq_len]\<close>.\<close>

definition append_row :: "'a list list \<Rightarrow> 'a list list" where
  "append_row rows = rows @ [[]]"

definition extend_last :: "'a list \<Rightarrow> 'a list list \<Rightarrow> 'a list list" where
  "extend_last xs rows = butlast rows @ [last rows @ xs]"

definition truncate_last :: "int \<Rightarrow> 'a list list \<Rightarrow> 'a list list" where
  "truncate_last seq_len rows = butlast rows @ [slice_to seq_len (last rows)]"

text \<open>The result that is appended: the prompt is stripped when the result's prompt id is
  already among the group ids of the row.\<close>

definition effective_result :: "pack_state \<Rightarrow> tokenized_result \<Rightarrow> tokenized_result" where
  "effective_result st result =
     (if prompt_id result \<in> set (last (group_ids_rows st)) then without_prompt result else result)"

definition effective_length :: "pack_state \<Rightarrow> tokenized_result \<Rightarrow> int" where
  "effective_length st result =
     (if prompt_id result \<in> set (last (group_ids_rows st))
      then int (length (token_ids (without_prompt result)))
      else int (length (token_ids result)))"

definition needs_new_row :: "int \<Rightarrow> pack_state \<Rightarrow> tokenized_result \<Rightarrow> bool" where
  "needs_new_row seq_len st result \<longleftrightarrow>
     int (length (last (token_ids_rows st))) + effective_length st result > seq_len"

definition new_row :: "pack_state \<Rightarrow> pack_state" where
  "new_row st =
     st\<lparr> token_ids_rows := append_row (token_ids_rows st),
         group_ids_rows := append_row (group_ids_rows st),
         parent_ids_rows := append_row (parent_ids_rows st),
         input_pos_rows := append_row (input_pos_rows st),
         assistant_mask_rows := append_row (assistant_mask_rows st),
         logprobs_rows := append_row (logprobs_rows st),
         advantages_rows := append_row (advantages_rows st),
         weights_rows := append_row (weights_rows st),
         deferred_rows := append_row (deferred_rows st) \<rparr>"

definition assistant_indices :: "int list \<Rightarrow> nat list" where
  "assistant_indices am = filter (\<lambda>i. am ! i \<noteq> 0) [0 ..< length am]"

text \<open>The loop \<^verbatim>\<open>for idx, token_logprob in zip(...): logprobs[-1][idx + offset] = ...\<close>;
  a list assignment beyond the end of the row raises.\<close>

fun assign_logprobs ::
  "(nat \<times> token_logprob) list \<Rightarrow> nat \<Rightarrow> pyfloat list \<Rightarrow> error + pyfloat list" where
  "assign_logprobs [] offset row = Inr row"
| "assign_logprobs ((idx, token_logprob) # rest) offset row =
     (if idx + offset < length row
      then assign_logprobs rest offset (row[idx + offset := or_nan (logprob token_logprob)])
      else Inl IndexError)"

definition overlay_logprobs ::
  "tokenized_result \<Rightarrow> nat \<Rightarrow> pyfloat list \<Rightarrow> error + pyfloat list" where
  "overlay_logprobs result offset row =
     (case token_logprobs result of
        None \<Rightarrow> Inr row
      | Some lps \<Rightarrow>
          if lps = [] then Inr row
          else if \<not> length (assistant_indices (assistant_mask result)) \<le> length lps
          then Inl AssertionError
          else assign_logprobs
                 (zip (assistant_indices (assistant_mask result))
                      (slice_from (int (length lps)
                                   - int (length (assistant_indices (assistant_mask result)))) lps))
                 offset row)"

text \<open>\<^verbatim>\<open>advantages[-1][-1] = 0\<close>: raises on an empty row.\<close>

definition zero_last :: "pyfloat list \<Rightarrow> error + pyfloat list" where
  "zero_last row = (if row = [] then Inl IndexError else Inr (butlast row @ [Fin 0]))"

text \<open>
  Lines 83 to 113 of the loop body: the result is appended to the last row of every
  channel. \<open>rand\<close> is the sequence of values \<^verbatim>\<open>random.randint(-(2**63), 2**63 - 1)\<close> returns.
\<close>

definition append_result ::
  "(nat \<Rightarrow> 64 word) \<Rightarrow> pack_state \<Rightarrow> tokenized_result \<Rightarrow> error + pack_state" where
  "append_result rand st result0 =
    (let group_id = sint (rand (draws st));
         result = effective_result st result0;
         n = length (token_ids result);
         offset = length (last (logprobs_rows st))
     in case overlay_logprobs result offset (last (logprobs_rows st) @ replicate n NaN) of
          Inl e \<Rightarrow> Inl e
        | Inr logprobs_row \<Rightarrow>
           (case zero_last (last (advantages_rows st) @ replicate n (advantage result)) of
              Inl e \<Rightarrow> Inl e
            | Inr advantages_row \<Rightarrow>
               if sum_list (assistant_mask result) = 0 then Inl ZeroDivisionError
               else Inr
                 \<lparr> token_ids_rows = extend_last (token_ids result) (token_ids_rows st),
                   group_ids_rows =
                     extend_last (repeat (prompt_id result) (prompt_length result)
                                  @ repeat group_id (int n - prompt_length result))
                                 (group_ids_rows st),
                   parent_ids_rows = extend_last (repeat (prompt_id result) (int n)) (parent_ids_rows st),
                   input_pos_rows = extend_last (input_pos result) (input_pos_rows st),
                   assistant_mask_rows = extend_last (assistant_mask result) (assistant_mask_rows st),
                   logprobs_rows = butlast (logprobs_rows st) @ [logprobs_row],
                   advantages_rows = butlast (advantages_rows st) @ [advantages_row],
                   weights_rows =
                     extend_last (replicate n (1 / real_of_int (sum_list (assistant_mask result))))
                                 (weights_rows st),
                   deferred_rows = extend_last (replicate n (deferred result)) (deferred_rows st),
                   draws = Suc (draws st) \<rparr>))"

definition truncate_rows :: "int \<Rightarrow> pack_state \<Rightarrow> pack_state" where
  "truncate_rows seq_len st =
     st\<lparr> token_ids_rows := truncate_last seq_len (token_ids_rows st),
         group_ids_rows := truncate_last seq_len (group_ids_rows st),
         parent_ids_rows := truncate_last seq_len (parent_ids_rows st),
         input_pos_rows := truncate_last seq_len (input_pos_rows st),
         assistant_mask_rows := truncate_last seq_len (assistant_mask_rows st),
         logprobs_rows := truncate_last seq_len (logprobs_rows st),
         advantages_rows := truncate_last seq_len (advantages_rows st),
         weights_rows := truncate_last seq_len (weights_rows st),
         deferred_rows := truncate_last seq_len (deferred_rows st) \<rparr>"

text \<open>The two \<^verbatim>\<open>continue\<close> branches at the head of the loop body.\<close>

definition skipped :: "int \<Rightarrow> bool \<Rightarrow> tokenized_result \<Rightarrow> bool" where
  "skipped seq_len truncate_long_results result \<longleftrightarrow>
     (int (length (token_ids result)) > seq_len \<and> \<not> truncate_long_results)
     \<or> sum_list (assistant_mask result) = 0"

definition open_row :: "int \<Rightarrow> pack_state \<Rightarrow> tokenized_result \<Rightarrow> pack_state" where
  "open_row seq_len st result = (if needs_new_row seq_len st result then new_row st else st)"

definition loop_body ::
  "(nat \<Rightarrow> 64 word) \<Rightarrow> int \<Rightarrow> bool \<Rightarrow> pack_state \<Rightarrow> tokenized_result \<Rightarrow> error + pack_state" where
  "loop_body rand seq_len truncate_long_results st result =
    (if skipped seq_len truncate_long_results result then Inr st
     else case append_result rand (open_row seq_len st result) result of
            Inl e \<Rightarrow> Inl e
          | Inr st' \<Rightarrow> Inr (if truncate_long_results then truncate_rows seq_len st' else st'))"

fun pack_loop ::
  "(nat \<Rightarrow> 64 word) \<Rightarrow> int \<Rightarrow> bool \<Rightarrow> pack_state \<Rightarrow> tokenized_result list \<Rightarrow> error + pack_state" where
  "pack_loop rand seq_len truncate_long_results st [] = Inr st"
| "pack_loop rand seq_len truncate_long_results st (result # results) =
     (case loop_body rand seq_len truncate_long_results st result of
        Inl e \<Rightarrow> Inl e
      | Inr st' \<Rightarrow> pack_loop rand seq_len truncate_long_results st' results)"


subsection \<open>Padding, tensors and weight normalization\<close>

definition pad :: "int \<Rightarrow> 'a \<Rightarrow> 'a list list \<Rightarrow> 'a list list" where
  "pad seq_len pad_value vals =
     map (\<lambda>val. val @ repeat pad_value (seq_len - int (length val))) vals"

text \<open>\<^verbatim>\<open>torch.tensor\<close> of a list of rows raises unless all rows have one length. A tensor
  of two dimensions is kept as its list of rows; \<open>shape\<close> reads its two sizes.\<close>

definition cols :: "'a list list \<Rightarrow> nat" where
  "cols rows = length (hd rows)"

definition tensor :: "'a list list \<Rightarrow> error + 'a list list" where
  "tensor rows = (if list_all (\<lambda>row. length row = cols rows) rows then Inr rows else Inl ValueError)"

definition shape :: "'a list list \<Rightarrow> nat \<times> nat" where
  "shape t = (length t, cols t)"

definition bind :: "error + 'a \<Rightarrow> ('a \<Rightarrow> error + 'b) \<Rightarrow> error + 'b" where
  "bind m f = (case m of Inl e \<Rightarrow> Inl e | Inr x \<Rightarrow> f x)"

text \<open>\<^verbatim>\<open>torch.where(mask, weights, zeros_like(weights))\<close> on two tensors with the same number of
  rows: a dimension of size one is broadcast, any other difference of widths raises.\<close>

definition torch_where :: "bool list list \<Rightarrow> real list list \<Rightarrow> error + real list list" where
  "torch_where c x =
    (if cols c = cols x
     then Inr (map2 (\<lambda>cr xr. map2 (\<lambda>b v. if b then v else 0) cr xr) c x)
     else if cols x = 1
     then Inr (map2 (\<lambda>cr xr. map (\<lambda>b. if b then hd xr else 0) cr) c x)
     else if cols c = 1
     then Inr (map2 (\<lambda>cr xr. map (\<lambda>v. if hd cr then v else 0) xr) c x)
     else Inl RuntimeError)"

text \<open>\<^verbatim>\<open>x[m]\<close> for a boolean tensor \<open>m\<close>: the shapes must agree.\<close>

definition masked_select :: "bool list list \<Rightarrow> 'a list list \<Rightarrow> error + 'a list" where
  "masked_select m x =
    (if cols m = cols x
     then Inr (concat (map2 (\<lambda>mr xr. map snd (filter fst (zip mr xr))) m x))
     else Inl IndexError)"

text \<open>\<^verbatim>\<open>.mean()\<close>: NaN for a tensor without elements.\<close>

definition tensor_mean :: "real list \<Rightarrow> pyfloat" where
  "tensor_mean xs = (if xs = [] then NaN else Fin (sum_list xs / real (length xs)))"

text \<open>Float division of a finite value: dividing by zero gives an infinity or NaN.\<close>

fun fdiv :: "real \<Rightarrow> pyfloat \<Rightarrow> pyfloat" where
  "fdiv x (Fin y) =
     (if y \<noteq> 0 then Fin (x / y) else if x = 0 then NaN else if 0 < x then PosInf else NegInf)"
| "fdiv x NaN = NaN"
| "fdiv x PosInf = Fin 0"
| "fdiv x NegInf = Fin 0"

text \<open>\<^verbatim>\<open>x[m] /= d\<close>: only the selected positions are divided.\<close>

definition masked_divide :: "bool list list \<Rightarrow> real list list \<Rightarrow> pyfloat \<Rightarrow> pyfloat list list" where
  "masked_divide m x d = map2 (\<lambda>mr xr. map2 (\<lambda>b v. if b then fdiv v d else Fin v) mr xr) m x"

record packed_tensors =
  tokens_t :: "int list list"
  group_ids_t :: "int list list"
  parent_ids_t :: "int list list"
  input_pos_t :: "int list list"
  assistant_mask_t :: "bool list list"
  logprobs_t :: "pyfloat list list"
  advantages_t :: "pyfloat list list"
  weights_t :: "pyfloat list list"
  deferred_t :: "bool list list"

text \<open>Lines 125 to 150: padding, the weight normalization and the nine tensors, built in the
  order the source builds them.\<close>

definition finalize :: "int \<Rightarrow> int \<Rightarrow> pack_state \<Rightarrow> error + packed_tensors" where
  "finalize seq_len pad_token_id st =
    bind (tensor (map (map (\<lambda>m. m \<noteq> 0)) (pad seq_len 0 (assistant_mask_rows st))))
      (\<lambda>assistant_mask_tensor.
    bind (tensor (pad seq_len 0 (weights_rows st))) (\<lambda>weights0.
    bind (torch_where assistant_mask_tensor weights0) (\<lambda>weights1.
    bind (masked_select assistant_mask_tensor weights1) (\<lambda>selected.
    bind (tensor (pad seq_len pad_token_id (token_ids_rows st))) (\<lambda>tokens_tensor.
    bind (tensor (pad seq_len (- 1) (group_ids_rows st))) (\<lambda>group_ids_tensor.
    bind (tensor (pad seq_len (- 1) (parent_ids_rows st))) (\<lambda>parent_ids_tensor.
    bind (tensor (pad seq_len 0 (input_pos_rows st))) (\<lambda>input_pos_tensor.
    bind (tensor (pad seq_len NaN (logprobs_rows st))) (\<lambda>logprobs_tensor.
    bind (tensor (pad seq_len (Fin 0) (advantages_rows st))) (\<lambda>advantages_tensor.
    bind (tensor (pad seq_len False (deferred_rows st))) (\<lambda>deferred_tensor.
      Inr \<lparr> tokens_t = tokens_tensor,
            group_ids_t = group_ids_tensor,
            parent_ids_t = parent_ids_tensor,
            input_pos_t = input_pos_tensor,
            assistant_mask_t = assistant_mask_tensor,
            logprobs_t = logprobs_tensor,
            advantages_t = advantages_tensor,
            weights_t = masked_divide assistant_mask_tensor weights1 (tensor_mean selected),
            deferred_t = deferred_tensor \<rparr>)))))))))))"

definition packed_tensors_from_tokenized_results ::
  "(nat \<Rightarrow> 64 word) \<Rightarrow> tokenized_result list \<Rightarrow> int \<Rightarrow> int \<Rightarrow> bool \<Rightarrow> error + packed_tensors" where
  "packed_tensors_from_tokenized_results rand tokenized_results seq_len pad_token_id
       truncate_long_results =
     bind (pack_loop rand seq_len truncate_long_results init_state tokenized_results)
          (finalize seq_len pad_token_id)"

section \<open>pack.py: packed_tensors_from_dir\<close>

text \<open>
  The shape of each of the nine tensors that \<^verbatim>\<open>packed_tensors_from_dir\<close> returns. The file of a
  channel is mapped as a flat buffer of \<^verbatim>\<open>num_sequences * sequence_length * 1\<close> elements (no
  channel has the key \<^verbatim>\<open>"mask"\<close>), viewed as \<^verbatim>\<open>(num_sequences, sequence_length, -1)\<close> and
  squeezed. A view with a free dimension raises when the other dimensions multiply to zero or
  do not divide the number of elements; \<^verbatim>\<open>squeeze()\<close> without an argument removes every
  dimension of size one.
\<close>

definition view_rows :: "nat \<Rightarrow> nat \<Rightarrow> nat \<Rightarrow> error + nat list" where
  "view_rows numel num_sequences sequence_length =
     (if num_sequences * sequence_length = 0 \<or> numel mod (num_sequences * sequence_length) \<noteq> 0
      then Inl RuntimeError
      else Inr [num_sequences, sequence_length, numel div (num_sequences * sequence_length)])"

definition squeeze :: "nat list \<Rightarrow> nat list" where
  "squeeze dims = filter (\<lambda>d. d \<noteq> 1) dims"

definition packed_tensors_from_dir_shape :: "nat \<Rightarrow> nat \<Rightarrow> error + nat list" where
  "packed_tensors_from_dir_shape num_sequences sequence_length =
     bind (view_rows (num_sequences * sequence_length * 1) num_sequences sequence_length)
          (\<lambda>dims. Inr (squeeze dims))"

section \<open>Example inputs\<close>

text \<open>A result as the tokenizer builds it: positions \<open>0, 1, ...\<close>, no text fields.\<close>

definition example_result ::
  "int list \<Rightarrow> int list \<Rightarrow> token_logprob list option \<Rightarrow> int \<Rightarrow> int \<Rightarrow> pyfloat \<Rightarrow> tokenized_result" where
  "example_result ids am lps pid pl adv =
    \<lparr> conversation = [], reward = Fin 0, advantage = adv, deferred = False,
      chat_template = [], chat = [], tokens = [],
      token_ids = ids, input_pos = map int [0 ..< length ids], assistant_mask = am,
      token_logprobs = lps, prompt_id = pid, prompt_length = pl \<rparr>"

definition example_logprob :: "pyfloat option \<Rightarrow> token_logprob" where
  "example_logprob v = \<lparr> token = [], logprob = v \<rparr>"

definition example_rand :: "nat \<Rightarrow> 64 word" where
  "example_rand n = 5"

definition example_surplus_logprobs :: tokenized_result where
  "example_surplus_logprobs =
     example_result [7, 8] [1, 1]
       (Some [example_logprob (Some (Fin (- 1))), example_logprob (Some (Fin 0)),
              example_logprob (Some (Fin (- 3)))]) 0 0 (Fin 1)"

definition example_short_logprobs :: tokenized_result where
  "example_short_logprobs =
     example_result [7, 8] [1, 1] (Some [example_logprob (Some (Fin (- 1)))]) 0 0 (Fin 1)"

definition example_four_tokens :: tokenized_result where
  "example_four_tokens = example_result [1, 2, 7, 8] [0, 0, 1, 1] None 9 2 (Fin 1)"

definition example_five_tokens :: tokenized_result where
  "example_five_tokens = example_result [1, 2, 7, 8, 9] [0, 0, 1, 1, 1] None 9 2 (Fin 1)"

definition example_siblings :: "tokenized_result list" where
  "example_siblings =
     [example_result [1, 2, 7, 8] [1, 0, 1, 1] None 0 0 (Fin 1),
      example_result [1, 2, 3] [0, 1, 1] None 0 0 (Fin 2)]"

definition example_no_assistant :: tokenized_result where
  "example_no_assistant = example_result [7, 8] [0, 0] None 0 0 (Fin 1)"

definition example_three_tokens :: tokenized_result where
  "example_three_tokens = example_result [1, 2, 3] [0, 0, 1] None 9 2 (Fin 2)"


section \<open>Row lengths\<close>

text \<open>
  What one iteration that packs a result does to the list of row lengths of a channel that
  receives \<open>n\<close> new entries: a zero is appended when a row is opened, the last length grows by
  \<open>n\<close>, and it is cut as \<^verbatim>\<open>row[:seq_len]\<close> cuts when truncation is enabled.
\<close>

definition sliced_length :: "int \<Rightarrow> nat \<Rightarrow> nat" where
  "sliced_length seq_len l = (if seq_len < 0 then nat (int l + seq_len) else min l (nat seq_len))"

definition lengths_step :: "bool \<Rightarrow> bool \<Rightarrow> int \<Rightarrow> nat \<Rightarrow> nat list \<Rightarrow> nat list" where
  "lengths_step opened tr seq_len n ls =
     (let ls1 = (if opened then ls @ [0] else ls);
          l = last ls1 + n
      in butlast ls1 @ [if tr then sliced_length seq_len l else l])"

text \<open>The channels that always grow by the number of appended token ids have the row lengths
  of the token channel.\<close>

definition aligned :: "pack_state \<Rightarrow> bool" where
  "aligned st \<longleftrightarrow>
     token_ids_rows st \<noteq> []
   \<and> map length (parent_ids_rows st) = map length (token_ids_rows st)
   \<and> map length (logprobs_rows st) = map length (token_ids_rows st)
   \<and> map length (advantages_rows st) = map length (token_ids_rows st)
   \<and> map length (weights_rows st) = map length (token_ids_rows st)
   \<and> map length (deferred_rows st) = map length (token_ids_rows st)
   \<and> length (group_ids_rows st) = length (token_ids_rows st)
   \<and> length (input_pos_rows st) = length (token_ids_rows st)
   \<and> length (assistant_mask_rows st) = length (token_ids_rows st)"

text \<open>The other three channels have them too when every result has three per-token lists of
  one length and a prompt length between 0 and that length.\<close>

definition fully_aligned :: "pack_state \<Rightarrow> bool" where
  "fully_aligned st \<longleftrightarrow>
     aligned st
   \<and> map length (group_ids_rows st) = map length (token_ids_rows st)
   \<and> map length (input_pos_rows st) = map length (token_ids_rows st)
   \<and> map length (assistant_mask_rows st) = map length (token_ids_rows st)"

definition consistent_lengths :: "tokenized_result \<Rightarrow> bool" where
  "consistent_lengths result \<longleftrightarrow>
     length (input_pos result) = length (token_ids result)
   \<and> length (assistant_mask result) = length (token_ids result)
   \<and> 0 \<le> prompt_length result
   \<and> prompt_length result \<le> int (length (token_ids result))"

definition bounded :: "int \<Rightarrow> pack_state \<Rightarrow> bool" where
  "bounded seq_len st \<longleftrightarrow>
     list_all (\<lambda>row. int (length row) \<le> seq_len) (token_ids_rows st)
   \<and> list_all (\<lambda>row. int (length row) \<le> seq_len) (group_ids_rows st)
   \<and> list_all (\<lambda>row. int (length row) \<le> seq_len) (parent_ids_rows st)
   \<and> list_all (\<lambda>row. int (length row) \<le> seq_len) (input_pos_rows st)
   \<and> list_all (\<lambda>row. int (length row) \<le> seq_len) (assistant_mask_rows st)
   \<and> list_all (\<lambda>row. int (length row) \<le> seq_len) (logprobs_rows st)
   \<and> list_all (\<lambda>row. int (length row) \<le> seq_len) (advantages_rows st)
   \<and> list_all (\<lambda>row. int (length row) \<le> seq_len) (weights_rows st)
   \<and> list_all (\<lambda>row. int (length row) \<le> seq_len) (deferred_rows st)"

text \<open>
  An iteration clips the row it appends to when truncation is enabled, the result is packed,
  and the row with the result appended is longer than \<^verbatim>\<open>seq_len\<close>: then lines 114 to 123 cut
  the tail of the row. \<open>clipped_rows\<close> collects the indices of the rows that an iteration of
  the loop has clipped.
\<close>

definition clips :: "int \<Rightarrow> bool \<Rightarrow> pack_state \<Rightarrow> tokenized_result \<Rightarrow> bool" where
  "clips seq_len tr st result \<longleftrightarrow>
     tr \<and> \<not> skipped seq_len tr result
   \<and> int (length (last (token_ids_rows (open_row seq_len st result))))
       + int (length (token_ids (effective_result (open_row seq_len st result) result)))
     > seq_len"

fun clipped_rows ::
  "(nat \<Rightarrow> 64 word) \<Rightarrow> int \<Rightarrow> bool \<Rightarrow> pack_state \<Rightarrow> tokenized_result list \<Rightarrow> nat set" where
  "clipped_rows rand seq_len tr st [] = {}"
| "clipped_rows rand seq_len tr st (result # results) =
     (case loop_body rand seq_len tr st result of
        Inl e \<Rightarrow> {}
      | Inr st' \<Rightarrow>
          (if clips seq_len tr st result then {length (token_ids_rows st') - 1} else {})
          \<union> clipped_rows rand seq_len tr st' results)"

text \<open>Every row of the advantages channel that has content and is not among the rows \<open>C\<close>
  ends with the zero written by \<^verbatim>\<open>advantages[-1][-1] = 0\<close>.\<close>

definition zero_unless :: "nat set \<Rightarrow> pack_state \<Rightarrow> bool" where
  "zero_unless C st \<longleftrightarrow>
     (\<forall>i < length (advantages_rows st).
        i \<notin> C \<longrightarrow> advantages_rows st ! i \<noteq> [] \<longrightarrow> last (advantages_rows st ! i) = Fin 0)"




section \<open>Evaluation of the definitions on concrete inputs\<close>

lemmas eval_defs = packed_tensors_from_tokenized_results_def loop_body_def skipped_def open_row_def
  needs_new_row_def effective_length_def effective_result_def append_result_def
  overlay_logprobs_def assistant_indices_def new_row_def append_row_def extend_last_def
  truncate_rows_def truncate_last_def slice_to_def slice_from_def repeat_def zero_last_def
  without_prompt_def init_state_def example_result_def example_logprob_def example_rand_def
  finalize_def bind_def pad_def tensor_def cols_def torch_where_def masked_select_def
  tensor_mean_def masked_divide_def Let_def

section \<open>The log-probability overlay\<close>

lemma assign_logprobs_length:
  "assign_logprobs ps offset row = Inr row' \<Longrightarrow> length row' = length row"
  by (induction ps offset row rule: assign_logprobs.induct) (auto split: if_splits)

lemma assign_logprobs_untouched:
  "assign_logprobs ps offset row = Inr row' \<Longrightarrow> \<forall>p \<in> set ps. fst p + offset \<noteq> j
     \<Longrightarrow> row' ! j = row ! j"
  by (induction ps offset row rule: assign_logprobs.induct) (auto split: if_splits)

lemma assign_logprobs_nth:
  "assign_logprobs ps offset row = Inr row' \<Longrightarrow> distinct (map fst ps) \<Longrightarrow> k < length ps
     \<Longrightarrow> row' ! (fst (ps ! k) + offset) = or_nan (logprob (snd (ps ! k)))"
proof (induction ps offset row arbitrary: k rule: assign_logprobs.induct)
  case (1 offset row)
  then show ?case by simp
next
  case (2 idx token_logprob rest offset row)
  from "2.prems"(1) have inb: "idx + offset < length row"
    and rest: "assign_logprobs rest offset (row[idx + offset := or_nan (logprob token_logprob)]) = Inr row'"
    by (auto split: if_splits)
  show ?case
  proof (cases k)
    case 0
    have "\<forall>p \<in> set rest. fst p + offset \<noteq> idx + offset"
      using "2.prems"(2) by force
    from assign_logprobs_untouched [OF rest this] inb 0 show ?thesis by simp
  next
    case (Suc k')
    with "2.prems" "2.IH" [OF inb rest, of k'] show ?thesis by simp
  qed
qed

lemma assign_logprobs_ok:
  "\<forall>p \<in> set ps. fst p + offset < length row \<Longrightarrow> \<exists>row'. assign_logprobs ps offset row = Inr row'"
  by (induction ps offset row rule: assign_logprobs.induct) auto

lemma distinct_assistant_indices: "distinct (assistant_indices am)"
  by (simp add: assistant_indices_def)

lemma assistant_indices_bound: "i \<in> set (assistant_indices am) \<Longrightarrow> i < length am"
  by (simp add: assistant_indices_def)

lemma slice_from_suffix:
  "n \<le> length xs \<Longrightarrow> slice_from (int (length xs) - int n) xs = drop (length xs - n) xs"
  by (simp add: slice_from_def nat_diff_distrib')

lemma overlay_logprobs_nth:
  assumes ov: "overlay_logprobs result offset row = Inr row'"
    and lps: "token_logprobs result = Some lps" "lps \<noteq> []"
    and k: "k < length (assistant_indices (assistant_mask result))"
  shows "length (assistant_indices (assistant_mask result)) \<le> length lps \<and>
         row' ! (assistant_indices (assistant_mask result) ! k + offset) =
           or_nan (logprob (lps ! (length lps - length (assistant_indices (assistant_mask result)) + k)))"
proof -
  let ?ai = "assistant_indices (assistant_mask result)"
  let ?sl = "drop (length lps - length ?ai) lps"
  from ov lps have le: "length ?ai \<le> length lps"
    by (auto simp: overlay_logprobs_def split: if_splits)
  with ov lps have asg: "assign_logprobs (zip ?ai ?sl) offset row = Inr row'"
    by (simp add: overlay_logprobs_def slice_from_suffix)
  have len: "length ?sl = length ?ai" using le by simp
  have d: "distinct (map fst (zip ?ai ?sl))"
    using len by (simp add: distinct_assistant_indices)
  have kz: "k < length (zip ?ai ?sl)" using k len by simp
  from assign_logprobs_nth [OF asg d kz] k len le show ?thesis
    by (simp add: add.commute)
qed

lemma overlay_logprobs_length:
  "overlay_logprobs result offset row = Inr row' \<Longrightarrow> length row' = length row"
  by (auto simp: overlay_logprobs_def assign_logprobs_length split: option.splits if_splits)

lemma overlay_logprobs_assert:
  "token_logprobs result = Some lps \<Longrightarrow> lps \<noteq> [] \<Longrightarrow>
   length lps < length (assistant_indices (assistant_mask result)) \<Longrightarrow>
   overlay_logprobs result offset row = Inl AssertionError"
  by (simp add: overlay_logprobs_def)

lemma last_logprobs_append_result:
  "append_result rand st result0 = Inr st' \<Longrightarrow>
   overlay_logprobs (effective_result st result0) (length (last (logprobs_rows st)))
      (last (logprobs_rows st) @ replicate (length (token_ids (effective_result st result0))) NaN)
     = Inr (last (logprobs_rows st'))"
  by (auto simp: append_result_def Let_def split: sum.splits if_splits)

lemma append_result_assert:
  "overlay_logprobs (effective_result st result0) (length (last (logprobs_rows st)))
      (last (logprobs_rows st) @ replicate (length (token_ids (effective_result st result0))) NaN)
     = Inl e \<Longrightarrow> append_result rand st result0 = Inl e"
  by (simp add: append_result_def Let_def)

lemma loop_body_Inr:
  "loop_body rand seq_len tr st result = Inr st' \<Longrightarrow> \<not> skipped seq_len tr result \<Longrightarrow>
   \<exists>st2. append_result rand (open_row seq_len st result) result = Inr st2 \<and>
         st' = (if tr then truncate_rows seq_len st2 else st2)"
  by (auto simp: loop_body_def split: sum.splits)

lemma last_truncate_last [simp]: "last (truncate_last seq_len rows) = slice_to seq_len (last rows)"
  by (simp add: truncate_last_def)

lemma slice_to_nth: "int i < n \<Longrightarrow> slice_to n xs ! i = xs ! i"
  by (simp add: slice_to_def)

lemma overlay_logprobs_untouched:
  assumes ov: "overlay_logprobs result offset row = Inr row'"
    and j: "j \<notin> set (assistant_indices (assistant_mask result))"
  shows "row' ! (j + offset) = row ! (j + offset)"
proof (cases "token_logprobs result")
  case None
  with ov show ?thesis by (simp add: overlay_logprobs_def)
next
  case (Some lps)
  show ?thesis
  proof (cases "lps = []")
    case True
    with ov Some show ?thesis by (simp add: overlay_logprobs_def)
  next
    case False
    let ?ai = "assistant_indices (assistant_mask result)"
    let ?ps = "zip ?ai (slice_from (int (length lps) - int (length ?ai)) lps)"
    from ov Some False have asg: "assign_logprobs ?ps offset row = Inr row'"
      by (auto simp: overlay_logprobs_def split: if_splits)
    have "\<forall>p \<in> set ?ps. fst p + offset \<noteq> j + offset"
      using j by (auto dest: set_zip_leftD)
    from assign_logprobs_untouched [OF asg this] show ?thesis .
  qed
qed

lemma overlay_logprobs_absent:
  "token_logprobs result = None \<or> token_logprobs result = Some [] \<Longrightarrow>
   overlay_logprobs result offset row = Inr row"
  by (auto simp: overlay_logprobs_def)

section \<open>The effect of one loop iteration on the rows\<close>

lemma last_extend_last [simp]: "last (extend_last xs rows) = last rows @ xs"
  by (simp add: extend_last_def)

lemma butlast_extend_last [simp]: "butlast (extend_last xs rows) = butlast rows"
  by (simp add: extend_last_def)

lemma butlast_truncate_last [simp]: "butlast (truncate_last seq_len rows) = butlast rows"
  by (simp add: truncate_last_def)

lemma length_extend_last [simp]: "rows \<noteq> [] \<Longrightarrow> length (extend_last xs rows) = length rows"
  by (simp add: extend_last_def)

lemma length_truncate_last [simp]: "rows \<noteq> [] \<Longrightarrow> length (truncate_last n rows) = length rows"
  by (simp add: truncate_last_def)

lemma extend_last_not_Nil [simp]: "extend_last xs rows \<noteq> []"
  by (simp add: extend_last_def)

lemma truncate_last_not_Nil [simp]: "truncate_last n rows \<noteq> []"
  by (simp add: truncate_last_def)

lemma slice_to_id: "int (length xs) \<le> n \<Longrightarrow> slice_to n xs = xs"
  by (simp add: slice_to_def)

lemma length_slice_to: "0 \<le> n \<Longrightarrow> length (slice_to n xs) = min (length xs) (nat n)"
  by (simp add: slice_to_def)

lemma length_slice_from:
  "0 \<le> n \<Longrightarrow> length (slice_from n xs) = length xs - nat n"
  by (simp add: slice_from_def)

lemma append_result_Inr:
  assumes "append_result rand st result0 = Inr st'"
  defines "result \<equiv> effective_result st result0"
  shows "token_ids_rows st' = extend_last (token_ids result) (token_ids_rows st)"
    and "group_ids_rows st' =
           extend_last (repeat (prompt_id result) (prompt_length result)
                        @ repeat (sint (rand (draws st)))
                            (int (length (token_ids result)) - prompt_length result))
                       (group_ids_rows st)"
    and "parent_ids_rows st' =
           extend_last (repeat (prompt_id result) (int (length (token_ids result)))) (parent_ids_rows st)"
    and "input_pos_rows st' = extend_last (input_pos result) (input_pos_rows st)"
    and "assistant_mask_rows st' = extend_last (assistant_mask result) (assistant_mask_rows st)"
    and "butlast (logprobs_rows st') = butlast (logprobs_rows st)"
    and "logprobs_rows st' = butlast (logprobs_rows st) @ [last (logprobs_rows st')]"
    and "advantages_rows st' = butlast (advantages_rows st) @ [last (advantages_rows st')]"
    and "length (last (logprobs_rows st')) =
           length (last (logprobs_rows st)) + length (token_ids result)"
    and "butlast (advantages_rows st') = butlast (advantages_rows st)"
    and "last (advantages_rows st') =
           butlast (last (advantages_rows st) @ replicate (length (token_ids result)) (advantage result))
           @ [Fin 0]"
    and "last (advantages_rows st) @ replicate (length (token_ids result)) (advantage result) \<noteq> []"
    and "weights_rows st' =
           extend_last (replicate (length (token_ids result))
                          (1 / real_of_int (sum_list (assistant_mask result)))) (weights_rows st)"
    and "deferred_rows st' =
           extend_last (replicate (length (token_ids result)) (deferred result)) (deferred_rows st)"
    and "sum_list (assistant_mask result) \<noteq> 0"
    and "draws st' = Suc (draws st)"
  using assms(1) unfolding result_def
  by (auto simp: append_result_def Let_def zero_last_def overlay_logprobs_length
           split: sum.splits if_splits)

lemma new_row_last [simp]:
  "last (token_ids_rows (new_row st)) = []" "last (group_ids_rows (new_row st)) = []"
  "last (parent_ids_rows (new_row st)) = []" "last (input_pos_rows (new_row st)) = []"
  "last (assistant_mask_rows (new_row st)) = []" "last (logprobs_rows (new_row st)) = []"
  "last (advantages_rows (new_row st)) = []" "last (weights_rows (new_row st)) = []"
  "last (deferred_rows (new_row st)) = []"
  by (simp_all add: new_row_def append_row_def)

lemma new_row_butlast [simp]:
  "butlast (token_ids_rows (new_row st)) = token_ids_rows st"
  "butlast (group_ids_rows (new_row st)) = group_ids_rows st"
  "butlast (parent_ids_rows (new_row st)) = parent_ids_rows st"
  "butlast (input_pos_rows (new_row st)) = input_pos_rows st"
  "butlast (assistant_mask_rows (new_row st)) = assistant_mask_rows st"
  "butlast (logprobs_rows (new_row st)) = logprobs_rows st"
  "butlast (advantages_rows (new_row st)) = advantages_rows st"
  "butlast (weights_rows (new_row st)) = weights_rows st"
  "butlast (deferred_rows (new_row st)) = deferred_rows st"
  by (simp_all add: new_row_def append_row_def)

lemma effective_result_new_row [simp]: "effective_result (new_row st) result = result"
  by (simp add: effective_result_def)

lemma effective_length_eq:
  "effective_length st result = int (length (token_ids (effective_result st result)))"
  by (simp add: effective_length_def effective_result_def)

lemma open_row_fields:
  "token_ids_rows (open_row seq_len st r) =
     (if needs_new_row seq_len st r then append_row (token_ids_rows st) else token_ids_rows st)"
  "group_ids_rows (open_row seq_len st r) =
     (if needs_new_row seq_len st r then append_row (group_ids_rows st) else group_ids_rows st)"
  "parent_ids_rows (open_row seq_len st r) =
     (if needs_new_row seq_len st r then append_row (parent_ids_rows st) else parent_ids_rows st)"
  "input_pos_rows (open_row seq_len st r) =
     (if needs_new_row seq_len st r then append_row (input_pos_rows st) else input_pos_rows st)"
  "assistant_mask_rows (open_row seq_len st r) =
     (if needs_new_row seq_len st r then append_row (assistant_mask_rows st) else assistant_mask_rows st)"
  "logprobs_rows (open_row seq_len st r) =
     (if needs_new_row seq_len st r then append_row (logprobs_rows st) else logprobs_rows st)"
  "advantages_rows (open_row seq_len st r) =
     (if needs_new_row seq_len st r then append_row (advantages_rows st) else advantages_rows st)"
  "weights_rows (open_row seq_len st r) =
     (if needs_new_row seq_len st r then append_row (weights_rows st) else weights_rows st)"
  "deferred_rows (open_row seq_len st r) =
     (if needs_new_row seq_len st r then append_row (deferred_rows st) else deferred_rows st)"
  "draws (open_row seq_len st r) = draws st"
  by (simp_all add: open_row_def new_row_def)

lemma truncate_rows_fields:
  "token_ids_rows (truncate_rows n st) = truncate_last n (token_ids_rows st)"
  "group_ids_rows (truncate_rows n st) = truncate_last n (group_ids_rows st)"
  "parent_ids_rows (truncate_rows n st) = truncate_last n (parent_ids_rows st)"
  "input_pos_rows (truncate_rows n st) = truncate_last n (input_pos_rows st)"
  "assistant_mask_rows (truncate_rows n st) = truncate_last n (assistant_mask_rows st)"
  "logprobs_rows (truncate_rows n st) = truncate_last n (logprobs_rows st)"
  "advantages_rows (truncate_rows n st) = truncate_last n (advantages_rows st)"
  "weights_rows (truncate_rows n st) = truncate_last n (weights_rows st)"
  "deferred_rows (truncate_rows n st) = truncate_last n (deferred_rows st)"
  "draws (truncate_rows n st) = draws st"
  by (simp_all add: truncate_rows_def)

section \<open>Row lengths through the loop\<close>

lemma map_length_append_row [simp]: "map length (append_row rows) = map length rows @ [0]"
  by (simp add: append_row_def)

lemma map_length_extend_last:
  "rows \<noteq> [] \<Longrightarrow>
   map length (extend_last xs rows) = butlast (map length rows) @ [last (map length rows) + length xs]"
  by (simp add: extend_last_def map_butlast last_map)

lemma length_slice_to_eq: "length (slice_to seq_len xs) = sliced_length seq_len (length xs)"
  by (cases "seq_len < 0") (auto simp: slice_to_def sliced_length_def)

lemma map_length_truncate_last:
  "rows \<noteq> [] \<Longrightarrow>
   map length (truncate_last seq_len rows) =
     butlast (map length rows) @ [sliced_length seq_len (last (map length rows))]"
  by (simp add: truncate_last_def map_butlast last_map length_slice_to_eq)

lemma map_length_replace_last:
  "rows \<noteq> [] \<Longrightarrow> length row' = length (last rows) + n \<Longrightarrow>
   map length (butlast rows @ [row']) = butlast (map length rows) @ [last (map length rows) + n]"
  by (simp add: map_butlast last_map)

lemma lengths_step_chain:
  assumes "ls \<noteq> []"
  shows "lengths_step opened tr seq_len n ls =
     (let ls1 = (if opened then ls @ [0] else ls);
          ls2 = butlast ls1 @ [last ls1 + n]
      in if tr then butlast ls2 @ [sliced_length seq_len (last ls2)] else ls2)"
  by (simp add: lengths_step_def Let_def)

lemma channel_lengths_step:
  assumes ne: "rows \<noteq> []"
    and step: "map length rows2 =
       butlast (map length (if opened then append_row rows else rows))
       @ [last (map length (if opened then append_row rows else rows)) + n]"
    and tr: "rows' = (if tr then truncate_last seq_len rows2 else rows2)"
  shows "map length rows' = lengths_step opened tr seq_len n (map length rows)"
proof -
  from step have ne2: "rows2 \<noteq> []" by auto
  show ?thesis
    using ne step tr map_length_truncate_last [OF ne2, of seq_len]
    by (auto simp: lengths_step_def Let_def)
qed

lemma append_row_not_Nil [simp]: "append_row rows \<noteq> []"
  by (simp add: append_row_def)

lemma extended_channel_step:
  assumes "rows \<noteq> []"
    and "rows2 = extend_last xs (if opened then append_row rows else rows)"
    and "rows' = (if tr then truncate_last seq_len rows2 else rows2)"
  shows "map length rows' = lengths_step opened tr seq_len (length xs) (map length rows)"
  using assms by (intro channel_lengths_step [where ?rows2.0 = rows2])
    (simp_all add: map_length_extend_last)

lemma replaced_channel_step:
  assumes "rows \<noteq> []"
    and "rows2 = butlast (if opened then append_row rows else rows) @ [row2]"
    and "length row2 = length (last (if opened then append_row rows else rows)) + n"
    and "rows' = (if tr then truncate_last seq_len rows2 else rows2)"
  shows "map length rows' = lengths_step opened tr seq_len n (map length rows)"
  using assms by (intro channel_lengths_step [where ?rows2.0 = rows2])
    (auto simp add: map_butlast last_map append_row_def)

lemma loop_body_lengths:
  fixes rand seq_len tr st result
  defines "opened \<equiv> needs_new_row seq_len st result"
  defines "eff \<equiv> effective_result (open_row seq_len st result) result"
  defines "n \<equiv> length (token_ids eff)"
  assumes run: "loop_body rand seq_len tr st result = Inr st'"
    and ns: "\<not> skipped seq_len tr result"
  shows "token_ids_rows st \<noteq> [] \<Longrightarrow>
           map length (token_ids_rows st') = lengths_step opened tr seq_len n (map length (token_ids_rows st))"
    and "parent_ids_rows st \<noteq> [] \<Longrightarrow>
           map length (parent_ids_rows st') = lengths_step opened tr seq_len n (map length (parent_ids_rows st))"
    and "logprobs_rows st \<noteq> [] \<Longrightarrow>
           map length (logprobs_rows st') = lengths_step opened tr seq_len n (map length (logprobs_rows st))"
    and "advantages_rows st \<noteq> [] \<Longrightarrow>
           map length (advantages_rows st') = lengths_step opened tr seq_len n (map length (advantages_rows st))"
    and "weights_rows st \<noteq> [] \<Longrightarrow>
           map length (weights_rows st') = lengths_step opened tr seq_len n (map length (weights_rows st))"
    and "deferred_rows st \<noteq> [] \<Longrightarrow>
           map length (deferred_rows st') = lengths_step opened tr seq_len n (map length (deferred_rows st))"
    and "group_ids_rows st \<noteq> [] \<Longrightarrow>
           map length (group_ids_rows st') =
             lengths_step opened tr seq_len
               (nat (prompt_length eff) + nat (int n - prompt_length eff))
               (map length (group_ids_rows st))"
    and "input_pos_rows st \<noteq> [] \<Longrightarrow>
           map length (input_pos_rows st') =
             lengths_step opened tr seq_len (length (input_pos eff)) (map length (input_pos_rows st))"
    and "assistant_mask_rows st \<noteq> [] \<Longrightarrow>
           map length (assistant_mask_rows st') =
             lengths_step opened tr seq_len (length (assistant_mask eff)) (map length (assistant_mask_rows st))"
proof -
  from loop_body_Inr [OF run ns] obtain st2 where
    app: "append_result rand (open_row seq_len st result) result = Inr st2"
    and st': "st' = (if tr then truncate_rows seq_len st2 else st2)"
    by auto
  note f = append_result_Inr [OF app, folded eff_def, folded n_def]
  show "map length (token_ids_rows st') = lengths_step opened tr seq_len (n) (map length (token_ids_rows st))"
    if ne: "token_ids_rows st \<noteq> []"
  proof -
    have b: "token_ids_rows st' = (if tr then truncate_last seq_len (token_ids_rows st2) else token_ids_rows st2)"
      by (simp add: st' truncate_rows_fields)
    have a: "token_ids_rows st2 =
        extend_last (token_ids eff)
          (if opened then append_row (token_ids_rows st) else token_ids_rows st)"
      by (simp add: f open_row_fields opened_def)
    from extended_channel_step [OF ne a b] show ?thesis
      by (simp add: repeat_def n_def)
  qed
  show "map length (parent_ids_rows st') = lengths_step opened tr seq_len (n) (map length (parent_ids_rows st))"
    if ne: "parent_ids_rows st \<noteq> []"
  proof -
    have b: "parent_ids_rows st' = (if tr then truncate_last seq_len (parent_ids_rows st2) else parent_ids_rows st2)"
      by (simp add: st' truncate_rows_fields)
    have a: "parent_ids_rows st2 =
        extend_last (repeat (prompt_id eff) (int n))
          (if opened then append_row (parent_ids_rows st) else parent_ids_rows st)"
      by (simp add: f open_row_fields opened_def)
    from extended_channel_step [OF ne a b] show ?thesis
      by (simp add: repeat_def n_def)
  qed
  show "map length (logprobs_rows st') = lengths_step opened tr seq_len (n) (map length (logprobs_rows st))"
    if ne: "logprobs_rows st \<noteq> []"
  proof -
    have b: "logprobs_rows st' = (if tr then truncate_last seq_len (logprobs_rows st2) else logprobs_rows st2)"
      by (simp add: st' truncate_rows_fields)
    have a: "logprobs_rows st2 =
        butlast (if opened then append_row (logprobs_rows st) else logprobs_rows st) @ [last (logprobs_rows st2)]"
      using f by (simp add: open_row_fields opened_def)
    have l: "length (last (logprobs_rows st2)) =
        length (last (if opened then append_row (logprobs_rows st) else logprobs_rows st)) + n"
      using f by (simp add: open_row_fields opened_def)
    from replaced_channel_step [OF ne a l b] show ?thesis .
  qed
  show "map length (advantages_rows st') = lengths_step opened tr seq_len (n) (map length (advantages_rows st))"
    if ne: "advantages_rows st \<noteq> []"
  proof -
    have b: "advantages_rows st' = (if tr then truncate_last seq_len (advantages_rows st2) else advantages_rows st2)"
      by (simp add: st' truncate_rows_fields)
    have a: "advantages_rows st2 =
        butlast (if opened then append_row (advantages_rows st) else advantages_rows st) @ [last (advantages_rows st2)]"
      using f by (simp add: open_row_fields opened_def)
    have l: "length (last (advantages_rows st2)) =
        length (last (if opened then append_row (advantages_rows st) else advantages_rows st)) + n"
      using f by (simp add: open_row_fields opened_def)
    from replaced_channel_step [OF ne a l b] show ?thesis .
  qed
  show "map length (weights_rows st') = lengths_step opened tr seq_len (n) (map length (weights_rows st))"
    if ne: "weights_rows st \<noteq> []"
  proof -
    have b: "weights_rows st' = (if tr then truncate_last seq_len (weights_rows st2) else weights_rows st2)"
      by (simp add: st' truncate_rows_fields)
    have a: "weights_rows st2 =
        extend_last (replicate n (1 / real_of_int (sum_list (assistant_mask eff))))
          (if opened then append_row (weights_rows st) else weights_rows st)"
      by (simp add: f open_row_fields opened_def)
    from extended_channel_step [OF ne a b] show ?thesis
      by (simp add: repeat_def n_def)
  qed
  show "map length (deferred_rows st') = lengths_step opened tr seq_len (n) (map length (deferred_rows st))"
    if ne: "deferred_rows st \<noteq> []"
  proof -
    have b: "deferred_rows st' = (if tr then truncate_last seq_len (deferred_rows st2) else deferred_rows st2)"
      by (simp add: st' truncate_rows_fields)
    have a: "deferred_rows st2 =
        extend_last (replicate n (deferred eff))
          (if opened then append_row (deferred_rows st) else deferred_rows st)"
      by (simp add: f open_row_fields opened_def)
    from extended_channel_step [OF ne a b] show ?thesis
      by (simp add: repeat_def n_def)
  qed
  show "map length (group_ids_rows st') = lengths_step opened tr seq_len (nat (prompt_length eff) + nat (int n - prompt_length eff)) (map length (group_ids_rows st))"
    if ne: "group_ids_rows st \<noteq> []"
  proof -
    have b: "group_ids_rows st' = (if tr then truncate_last seq_len (group_ids_rows st2) else group_ids_rows st2)"
      by (simp add: st' truncate_rows_fields)
    have a: "group_ids_rows st2 =
        extend_last (repeat (prompt_id eff) (prompt_length eff) @ repeat (sint (rand (draws (open_row seq_len st result)))) (int n - prompt_length eff))
          (if opened then append_row (group_ids_rows st) else group_ids_rows st)"
      by (simp add: f open_row_fields opened_def)
    from extended_channel_step [OF ne a b] show ?thesis
      by (simp add: repeat_def n_def)
  qed
  show "map length (input_pos_rows st') = lengths_step opened tr seq_len (length (input_pos eff)) (map length (input_pos_rows st))"
    if ne: "input_pos_rows st \<noteq> []"
  proof -
    have b: "input_pos_rows st' = (if tr then truncate_last seq_len (input_pos_rows st2) else input_pos_rows st2)"
      by (simp add: st' truncate_rows_fields)
    have a: "input_pos_rows st2 =
        extend_last (input_pos eff)
          (if opened then append_row (input_pos_rows st) else input_pos_rows st)"
      by (simp add: f open_row_fields opened_def)
    from extended_channel_step [OF ne a b] show ?thesis
      by (simp add: repeat_def n_def)
  qed
  show "map length (assistant_mask_rows st') = lengths_step opened tr seq_len (length (assistant_mask eff)) (map length (assistant_mask_rows st))"
    if ne: "assistant_mask_rows st \<noteq> []"
  proof -
    have b: "assistant_mask_rows st' = (if tr then truncate_last seq_len (assistant_mask_rows st2) else assistant_mask_rows st2)"
      by (simp add: st' truncate_rows_fields)
    have a: "assistant_mask_rows st2 =
        extend_last (assistant_mask eff)
          (if opened then append_row (assistant_mask_rows st) else assistant_mask_rows st)"
      by (simp add: f open_row_fields opened_def)
    from extended_channel_step [OF ne a b] show ?thesis
      by (simp add: repeat_def n_def)
  qed
qed

section \<open>Invariants of the loop\<close>

lemma length_lengths_step:
  "length (lengths_step opened tr seq_len n ls) = (if opened then Suc (length ls) else length ls)"
  if "ls \<noteq> []"
  using that by (simp add: lengths_step_def Let_def)

lemma lengths_step_not_Nil [simp]: "lengths_step opened tr seq_len n ls \<noteq> []"
  by (simp add: lengths_step_def Let_def)

lemma set_lengths_step:
  assumes "ls \<noteq> []" and "l \<in> set (lengths_step opened tr seq_len n ls)"
  shows "l \<in> set ls
       \<or> l = (if tr then sliced_length seq_len ((if opened then 0 else last ls) + n)
              else (if opened then 0 else last ls) + n)"
  using assms by (auto simp: lengths_step_def Let_def dest: in_set_butlastD split: if_splits)

lemma sliced_length_le: "0 \<le> seq_len \<Longrightarrow> int (sliced_length seq_len l) \<le> seq_len"
  by (simp add: sliced_length_def)

lemma sliced_length_id: "int l \<le> seq_len \<Longrightarrow> sliced_length seq_len l = l"
  by (auto simp: sliced_length_def)

lemma list_all_length_iff:
  "list_all (\<lambda>row. int (length row) \<le> n) rows \<longleftrightarrow> (\<forall>l \<in> set (map length rows). int l \<le> n)"
  by (auto simp: list_all_iff)

lemma map_length_eq_Nil: "map length rows = map length rows' \<Longrightarrow> rows' \<noteq> [] \<Longrightarrow> rows \<noteq> []"
  by auto

lemma aligned_not_Nil:
  assumes "aligned st"
  shows "token_ids_rows st \<noteq> []" "group_ids_rows st \<noteq> []" "parent_ids_rows st \<noteq> []"
    "input_pos_rows st \<noteq> []" "assistant_mask_rows st \<noteq> []" "logprobs_rows st \<noteq> []"
    "advantages_rows st \<noteq> []" "weights_rows st \<noteq> []" "deferred_rows st \<noteq> []"
  using assms unfolding aligned_def by (auto dest: map_length_eq_Nil)

lemma loop_body_skipped:
  "skipped seq_len tr result \<Longrightarrow> loop_body rand seq_len tr st result = Inr st"
  by (simp add: loop_body_def)

lemma aligned_loop_body:
  assumes al: "aligned st" and run: "loop_body rand seq_len tr st result = Inr st'"
  shows "aligned st'"
proof (cases "skipped seq_len tr result")
  case True
  with run al show ?thesis by (simp add: loop_body_def)
next
  case False
  note ne = aligned_not_Nil [OF al]
  note L = loop_body_lengths [OF run False]
  have eqs: "map length (parent_ids_rows st) = map length (token_ids_rows st)"
    "map length (logprobs_rows st) = map length (token_ids_rows st)"
    "map length (advantages_rows st) = map length (token_ids_rows st)"
    "map length (weights_rows st) = map length (token_ids_rows st)"
    "map length (deferred_rows st) = map length (token_ids_rows st)"
    using al by (simp_all add: aligned_def)
  have cnt: "length (group_ids_rows st) = length (token_ids_rows st)"
    "length (input_pos_rows st) = length (token_ids_rows st)"
    "length (assistant_mask_rows st) = length (token_ids_rows st)"
    using al by (simp_all add: aligned_def)
  have t: "token_ids_rows st' \<noteq> []"
    using L(1) [OF ne(1)] by (metis lengths_step_not_Nil list.map_disc_iff)
  have g: "length (group_ids_rows st') = length (token_ids_rows st')"
    using arg_cong [OF L(7) [OF ne(2)], of length] arg_cong [OF L(1) [OF ne(1)], of length] ne cnt
    by (simp add: length_lengths_step)
  have i: "length (input_pos_rows st') = length (token_ids_rows st')"
    using arg_cong [OF L(8) [OF ne(4)], of length] arg_cong [OF L(1) [OF ne(1)], of length] ne cnt
    by (simp add: length_lengths_step)
  have m: "length (assistant_mask_rows st') = length (token_ids_rows st')"
    using arg_cong [OF L(9) [OF ne(5)], of length] arg_cong [OF L(1) [OF ne(1)], of length] ne cnt
    by (simp add: length_lengths_step)
  show ?thesis
    unfolding aligned_def
    using t g i m L(1) [OF ne(1)] L(2) [OF ne(3)] L(3) [OF ne(6)] L(4) [OF ne(7)]
      L(5) [OF ne(8)] L(6) [OF ne(9)] eqs
    by simp
qed

lemma length_slice_from_same:
  "length xs = length ys \<Longrightarrow> length (slice_from n xs) = length (slice_from n ys)"
  by (simp add: slice_from_def)

lemma consistent_lengths_without_prompt:
  "consistent_lengths result \<Longrightarrow> consistent_lengths (without_prompt result)"
  by (simp add: consistent_lengths_def without_prompt_def Let_def slice_from_def)

lemma consistent_lengths_effective:
  "consistent_lengths result \<Longrightarrow> consistent_lengths (effective_result st result)"
  by (simp add: effective_result_def consistent_lengths_without_prompt)

lemma fully_aligned_loop_body:
  assumes al: "fully_aligned st" and c: "consistent_lengths result"
    and run: "loop_body rand seq_len tr st result = Inr st'"
  shows "fully_aligned st'"
proof (cases "skipped seq_len tr result")
  case True
  with run al show ?thesis by (simp add: loop_body_def)
next
  case False
  from al have a: "aligned st" by (simp add: fully_aligned_def)
  note ne = aligned_not_Nil [OF a]
  note L = loop_body_lengths [OF run False]
  have ce: "consistent_lengths (effective_result (open_row seq_len st result) result)"
    using c by (rule consistent_lengths_effective)
  have eqs: "map length (group_ids_rows st) = map length (token_ids_rows st)"
    "map length (input_pos_rows st) = map length (token_ids_rows st)"
    "map length (assistant_mask_rows st) = map length (token_ids_rows st)"
    using al by (simp_all add: fully_aligned_def)
  from ce have n: "nat (prompt_length (effective_result (open_row seq_len st result) result))
        + nat (int (length (token_ids (effective_result (open_row seq_len st result) result)))
               - prompt_length (effective_result (open_row seq_len st result) result))
      = length (token_ids (effective_result (open_row seq_len st result) result))"
    by (simp add: consistent_lengths_def) linarith
  show ?thesis
    unfolding fully_aligned_def
    using aligned_loop_body [OF a run] L(1) [OF ne(1)] L(7) [OF ne(2)] L(8) [OF ne(4)]
      L(9) [OF ne(5)] eqs ce n
    by (simp add: consistent_lengths_def)
qed

lemma channel_bounded:
  assumes ne: "rows \<noteq> []"
    and b: "list_all (\<lambda>row. int (length row) \<le> seq_len) rows"
    and step: "map length rows' = lengths_step opened tr seq_len n (map length rows)"
    and fit: "(tr \<and> 0 \<le> seq_len) \<or> int ((if opened then 0 else length (last rows)) + n) \<le> seq_len"
  shows "list_all (\<lambda>row. int (length row) \<le> seq_len) rows'"
  unfolding list_all_length_iff
proof
  fix l
  assume "l \<in> set (map length rows')"
  with step have "l \<in> set (lengths_step opened tr seq_len n (map length rows))" by simp
  with ne set_lengths_step [of "map length rows" l opened tr seq_len n]
  consider "l \<in> set (map length rows)"
    | "l = (if tr then sliced_length seq_len ((if opened then 0 else last (map length rows)) + n)
              else (if opened then 0 else last (map length rows)) + n)"
    by auto
  then show "int l \<le> seq_len"
  proof cases
    case 1
    with b show ?thesis by (auto simp: list_all_iff)
  next
    case 2
    from fit show ?thesis
    proof
      assume "tr \<and> 0 \<le> seq_len"
      with 2 show ?thesis by (simp add: sliced_length_le)
    next
      assume f: "int ((if opened then 0 else length (last rows)) + n) \<le> seq_len"
      with ne have "int ((if opened then 0 else last (map length rows)) + n) \<le> seq_len"
        by (cases opened) (simp_all add: last_map)
      with 2 show ?thesis by (simp add: sliced_length_id)
    qed
  qed
qed

lemma bounded_by_tokens:
  assumes "fully_aligned st"
  shows "bounded seq_len st \<longleftrightarrow> list_all (\<lambda>row. int (length row) \<le> seq_len) (token_ids_rows st)"
  using assms unfolding bounded_def fully_aligned_def aligned_def list_all_length_iff
  by auto

lemma result_fits:
  assumes ns: "\<not> skipped seq_len tr result"
    and len: "tr \<longrightarrow> int (length (token_ids result)) \<le> seq_len"
  shows "int ((if needs_new_row seq_len st result then 0 else length (last (token_ids_rows st)))
              + length (token_ids (effective_result (open_row seq_len st result) result))) \<le> seq_len"
proof (cases "needs_new_row seq_len st result")
  case True
  from ns len have "int (length (token_ids result)) \<le> seq_len"
    by (auto simp: skipped_def)
  with True show ?thesis by (simp add: open_row_def)
next
  case False
  then show ?thesis
    by (simp add: open_row_def needs_new_row_def effective_length_eq)
qed

lemma bounded_loop_body_fit:
  assumes al: "fully_aligned st" and c: "consistent_lengths result"
    and b: "bounded seq_len st"
    and run: "loop_body rand seq_len tr st result = Inr st'"
    and len: "tr \<longrightarrow> int (length (token_ids result)) \<le> seq_len"
  shows "bounded seq_len st'"
proof (cases "skipped seq_len tr result")
  case True
  with run b show ?thesis by (simp add: loop_body_def)
next
  case False
  from al have a: "aligned st" by (simp add: fully_aligned_def)
  note ne = aligned_not_Nil [OF a]
  note L = loop_body_lengths [OF run False]
  have al': "fully_aligned st'" by (rule fully_aligned_loop_body [OF al c run])
  from b al have tb: "list_all (\<lambda>row. int (length row) \<le> seq_len) (token_ids_rows st)"
    by (simp add: bounded_by_tokens)
  have "list_all (\<lambda>row. int (length row) \<le> seq_len) (token_ids_rows st')"
    by (rule channel_bounded [OF ne(1) tb L(1) [OF ne(1)]], rule disjI2)
       (rule result_fits [OF False len])
  with al' show ?thesis by (simp add: bounded_by_tokens)
qed

lemma bounded_loop_body_tr:
  assumes sl: "0 \<le> seq_len" and al: "aligned st" and b: "bounded seq_len st"
    and run: "loop_body rand seq_len True st result = Inr st'"
  shows "bounded seq_len st'"
proof (cases "skipped seq_len True result")
  case True
  with run b show ?thesis by (simp add: loop_body_def)
next
  case False
  note ne = aligned_not_Nil [OF al]
  note L = loop_body_lengths [OF run False]
  note cb = channel_bounded [where tr = True and seq_len = seq_len]
  from b sl show ?thesis
    unfolding bounded_def
    using cb [OF ne(1) _ L(1) [OF ne(1)]] cb [OF ne(2) _ L(7) [OF ne(2)]]
      cb [OF ne(3) _ L(2) [OF ne(3)]] cb [OF ne(4) _ L(8) [OF ne(4)]]
      cb [OF ne(5) _ L(9) [OF ne(5)]] cb [OF ne(6) _ L(3) [OF ne(6)]]
      cb [OF ne(7) _ L(4) [OF ne(7)]] cb [OF ne(8) _ L(5) [OF ne(8)]]
      cb [OF ne(9) _ L(6) [OF ne(9)]]
    by blast
qed

lemma init_state_aligned: "fully_aligned init_state" "aligned init_state"
  by (simp_all add: fully_aligned_def aligned_def init_state_def)

lemma init_state_bounded: "0 \<le> seq_len \<Longrightarrow> bounded seq_len init_state"
  by (simp add: bounded_def init_state_def)

lemma pack_loop_aligned:
  "aligned st \<Longrightarrow> pack_loop rand seq_len tr st results = Inr st' \<Longrightarrow> aligned st'"
proof (induction results arbitrary: st)
  case Nil
  then show ?case by simp
next
  case (Cons r rs)
  then show ?case
    by (auto split: sum.splits dest: aligned_loop_body)
qed

lemma pack_loop_bounded_tr:
  "0 \<le> seq_len \<Longrightarrow> aligned st \<Longrightarrow> bounded seq_len st \<Longrightarrow>
   pack_loop rand seq_len True st results = Inr st' \<Longrightarrow> bounded seq_len st'"
proof (induction results arbitrary: st)
  case Nil
  then show ?case by simp
next
  case (Cons r rs)
  from Cons.prems(4) obtain st1 where
    b: "loop_body rand seq_len True st r = Inr st1"
    and l: "pack_loop rand seq_len True st1 rs = Inr st'"
    by (auto split: sum.splits)
  from Cons.IH [OF Cons.prems(1) aligned_loop_body [OF Cons.prems(2) b]
      bounded_loop_body_tr [OF Cons.prems(1,2,3) b] l]
  show ?case .
qed


lemma pack_loop_bounded_fit:
  "\<forall>r \<in> set results. consistent_lengths r \<and> (tr \<longrightarrow> int (length (token_ids r)) \<le> seq_len) \<Longrightarrow>
   fully_aligned st \<Longrightarrow> bounded seq_len st \<Longrightarrow>
   pack_loop rand seq_len tr st results = Inr st' \<Longrightarrow> bounded seq_len st'"
proof (induction results arbitrary: st)
  case Nil
  then show ?case by simp
next
  case (Cons r rs)
  from Cons.prems(4) obtain st1 where
    b: "loop_body rand seq_len tr st r = Inr st1"
    and l: "pack_loop rand seq_len tr st1 rs = Inr st'"
    by (auto split: sum.splits)
  from Cons.prems(1) have c: "consistent_lengths r"
    and f: "tr \<longrightarrow> int (length (token_ids r)) \<le> seq_len"
    and cs: "\<forall>r \<in> set rs. consistent_lengths r \<and> (tr \<longrightarrow> int (length (token_ids r)) \<le> seq_len)"
    by simp_all
  from Cons.IH [OF cs fully_aligned_loop_body [OF Cons.prems(2) c b]
      bounded_loop_body_fit [OF Cons.prems(2) c Cons.prems(3) b f] l]
  show ?case .
qed

section \<open>Padding and the tensors\<close>

lemma bind_Inr: "bind m f = Inr y \<longleftrightarrow> (\<exists>x. m = Inr x \<and> f x = Inr y)"
  by (cases m) (simp_all add: bind_def)

lemma tensor_Inr:
  "tensor rows = Inr t \<longleftrightarrow> list_all (\<lambda>row. length row = cols rows) rows \<and> t = rows"
  by (auto simp: tensor_def)

lemma length_pad [simp]: "length (pad seq_len v rows) = length rows"
  by (simp add: pad_def)

lemma pad_nth:
  "i < length rows \<Longrightarrow>
   pad seq_len v rows ! i = rows ! i @ replicate (nat (seq_len - int (length (rows ! i)))) v"
  by (simp add: pad_def repeat_def)

lemma pad_row_length:
  "int (length row) \<le> seq_len \<Longrightarrow> length (row @ repeat v (seq_len - int (length row))) = nat seq_len"
  by (simp add: repeat_def)

lemma pad_bounded:
  "list_all (\<lambda>row. int (length row) \<le> seq_len) rows \<Longrightarrow>
   list_all (\<lambda>row. length row = nat seq_len) (pad seq_len v rows)"
  by (auto simp add: pad_def list_all_iff repeat_def)

lemma cols_uniform:
  "rows \<noteq> [] \<Longrightarrow> list_all (\<lambda>row. length row = L) rows \<Longrightarrow> cols rows = L"
  by (cases rows) (simp_all add: cols_def)

lemma tensor_uniform:
  "rows \<noteq> [] \<Longrightarrow> list_all (\<lambda>row. length row = L) rows \<Longrightarrow> tensor rows = Inr rows"
  by (simp add: tensor_def cols_uniform)

lemma pad_not_Nil [simp]: "pad seq_len v rows = [] \<longleftrightarrow> rows = []"
  by (simp add: pad_def)

lemma tensor_pad:
  assumes "rows \<noteq> []" and "list_all (\<lambda>row. int (length row) \<le> seq_len) rows"
  shows "tensor (pad seq_len v rows) = Inr (pad seq_len v rows)"
    and "shape (pad seq_len v rows) = (length rows, nat seq_len)"
  using assms pad_bounded [OF assms(2), of v]
  by (simp_all add: tensor_uniform shape_def cols_uniform)

lemma torch_where_same_width:
  assumes "cols c = cols x"
  shows "torch_where c x = Inr (map2 (\<lambda>cr xr. map2 (\<lambda>b v. if b then v else 0) cr xr) c x)"
  using assms by (simp add: torch_where_def)

lemma uniform_map2:
  assumes "list_all (\<lambda>row. length row = L) c" and "list_all (\<lambda>row. length row = L) x"
  shows "list_all (\<lambda>row. length row = L) (map2 (\<lambda>cr xr. map2 f cr xr) c x)"
  using assms by (auto simp: list_all_iff elim!: in_set_zipE)

lemma map2_not_Nil: "c \<noteq> [] \<Longrightarrow> x \<noteq> [] \<Longrightarrow> map2 f c x \<noteq> []"
  by (cases c; cases x) simp_all

lemma finalize_Inr:
  assumes "finalize seq_len p st = Inr pt"
  shows "tokens_t pt = pad seq_len p (token_ids_rows st)"
    and "group_ids_t pt = pad seq_len (- 1) (group_ids_rows st)"
    and "parent_ids_t pt = pad seq_len (- 1) (parent_ids_rows st)"
    and "input_pos_t pt = pad seq_len 0 (input_pos_rows st)"
    and "assistant_mask_t pt = map (map (\<lambda>m. m \<noteq> 0)) (pad seq_len 0 (assistant_mask_rows st))"
    and "logprobs_t pt = pad seq_len NaN (logprobs_rows st)"
    and "advantages_t pt = pad seq_len (Fin 0) (advantages_rows st)"
    and "deferred_t pt = pad seq_len False (deferred_rows st)"
    and "\<exists>weights1 selected.
           torch_where (assistant_mask_t pt) (pad seq_len 0 (weights_rows st)) = Inr weights1
         \<and> masked_select (assistant_mask_t pt) weights1 = Inr selected
         \<and> weights_t pt = masked_divide (assistant_mask_t pt) weights1 (tensor_mean selected)"
    and "list_all (\<lambda>row. length row = cols (assistant_mask_t pt)) (assistant_mask_t pt)"
  using assms
  by (auto simp: finalize_def bind_Inr tensor_Inr)

lemma finalize_returns:
  assumes al: "aligned st" and b: "bounded seq_len st"
  shows "\<exists>pt. finalize seq_len p st = Inr pt"
proof -
  note ne = aligned_not_Nil [OF al]
  let ?m = "map (map (\<lambda>m. m \<noteq> 0)) (pad seq_len 0 (assistant_mask_rows st))"
  let ?w0 = "pad seq_len 0 (weights_rows st)"
  let ?w1 = "map2 (\<lambda>cr xr. map2 (\<lambda>b v. if b then v else 0) cr xr) ?m ?w0"
  from b have bs:
    "list_all (\<lambda>row. int (length row) \<le> seq_len) (token_ids_rows st)"
    "list_all (\<lambda>row. int (length row) \<le> seq_len) (group_ids_rows st)"
    "list_all (\<lambda>row. int (length row) \<le> seq_len) (parent_ids_rows st)"
    "list_all (\<lambda>row. int (length row) \<le> seq_len) (input_pos_rows st)"
    "list_all (\<lambda>row. int (length row) \<le> seq_len) (assistant_mask_rows st)"
    "list_all (\<lambda>row. int (length row) \<le> seq_len) (logprobs_rows st)"
    "list_all (\<lambda>row. int (length row) \<le> seq_len) (advantages_rows st)"
    "list_all (\<lambda>row. int (length row) \<le> seq_len) (weights_rows st)"
    "list_all (\<lambda>row. int (length row) \<le> seq_len) (deferred_rows st)"
    by (simp_all add: bounded_def)
  have um: "list_all (\<lambda>row. length row = nat seq_len) ?m"
    using pad_bounded [OF bs(5), of 0] by (simp add: list_all_iff)
  have uw: "list_all (\<lambda>row. length row = nat seq_len) ?w0"
    by (rule pad_bounded [OF bs(8)])
  have nm: "?m \<noteq> []" and nw: "?w0 \<noteq> []" using ne by simp_all
  have tm: "tensor ?m = Inr ?m" by (rule tensor_uniform [OF nm um])
  have cm: "cols ?m = nat seq_len" by (rule cols_uniform [OF nm um])
  have cw: "cols ?w0 = nat seq_len" by (rule cols_uniform [OF nw uw])
  have wh: "torch_where ?m ?w0 = Inr ?w1"
    by (rule torch_where_same_width) (simp only: cm cw)
  have c1: "cols ?w1 = nat seq_len"
    by (rule cols_uniform [OF map2_not_Nil [OF nm nw] uniform_map2 [OF um uw]])
  have ms: "\<exists>sel. masked_select ?m ?w1 = Inr sel"
    unfolding masked_select_def cm c1 by simp
  then obtain sel where sel: "masked_select ?m ?w1 = Inr sel" ..
  show ?thesis
    unfolding finalize_def
    by (simp only: tm tensor_pad(1) [OF ne(8) bs(8)] wh sel tensor_pad(1) [OF ne(1) bs(1)]
          tensor_pad(1) [OF ne(2) bs(2)] tensor_pad(1) [OF ne(3) bs(3)]
          tensor_pad(1) [OF ne(4) bs(4)] tensor_pad(1) [OF ne(6) bs(6)]
          tensor_pad(1) [OF ne(7) bs(7)] tensor_pad(1) [OF ne(9) bs(9)] bind_def sum.case) blast
qed

lemma finalize_shapes:
  assumes al: "aligned st" and b: "bounded seq_len st" and f: "finalize seq_len p st = Inr pt"
  shows "shape (tokens_t pt) = (length (token_ids_rows st), nat seq_len)"
    and "shape (group_ids_t pt) = (length (token_ids_rows st), nat seq_len)"
    and "shape (parent_ids_t pt) = (length (token_ids_rows st), nat seq_len)"
    and "shape (input_pos_t pt) = (length (token_ids_rows st), nat seq_len)"
    and "shape (assistant_mask_t pt) = (length (token_ids_rows st), nat seq_len)"
    and "shape (logprobs_t pt) = (length (token_ids_rows st), nat seq_len)"
    and "shape (advantages_t pt) = (length (token_ids_rows st), nat seq_len)"
    and "shape (weights_t pt) = (length (token_ids_rows st), nat seq_len)"
    and "shape (deferred_t pt) = (length (token_ids_rows st), nat seq_len)"
proof -
  note ne = aligned_not_Nil [OF al]
  note F = finalize_Inr [OF f]
  from al have cnt: "length (group_ids_rows st) = length (token_ids_rows st)"
    "length (parent_ids_rows st) = length (token_ids_rows st)"
    "length (input_pos_rows st) = length (token_ids_rows st)"
    "length (assistant_mask_rows st) = length (token_ids_rows st)"
    "length (logprobs_rows st) = length (token_ids_rows st)"
    "length (advantages_rows st) = length (token_ids_rows st)"
    "length (weights_rows st) = length (token_ids_rows st)"
    "length (deferred_rows st) = length (token_ids_rows st)"
    unfolding aligned_def by (auto dest: map_eq_imp_length_eq)
  from b have bs:
    "list_all (\<lambda>row. int (length row) \<le> seq_len) (token_ids_rows st)"
    "list_all (\<lambda>row. int (length row) \<le> seq_len) (group_ids_rows st)"
    "list_all (\<lambda>row. int (length row) \<le> seq_len) (parent_ids_rows st)"
    "list_all (\<lambda>row. int (length row) \<le> seq_len) (input_pos_rows st)"
    "list_all (\<lambda>row. int (length row) \<le> seq_len) (assistant_mask_rows st)"
    "list_all (\<lambda>row. int (length row) \<le> seq_len) (logprobs_rows st)"
    "list_all (\<lambda>row. int (length row) \<le> seq_len) (advantages_rows st)"
    "list_all (\<lambda>row. int (length row) \<le> seq_len) (weights_rows st)"
    "list_all (\<lambda>row. int (length row) \<le> seq_len) (deferred_rows st)"
    by (simp_all add: bounded_def)
  show "shape (tokens_t pt) = (length (token_ids_rows st), nat seq_len)"
    by (simp only: F tensor_pad(2) [OF ne(1) bs(1)])
  show "shape (group_ids_t pt) = (length (token_ids_rows st), nat seq_len)"
    by (simp only: F tensor_pad(2) [OF ne(2) bs(2)] cnt)
  show "shape (parent_ids_t pt) = (length (token_ids_rows st), nat seq_len)"
    by (simp only: F tensor_pad(2) [OF ne(3) bs(3)] cnt)
  show "shape (input_pos_t pt) = (length (token_ids_rows st), nat seq_len)"
    by (simp only: F tensor_pad(2) [OF ne(4) bs(4)] cnt)
  show "shape (logprobs_t pt) = (length (token_ids_rows st), nat seq_len)"
    by (simp only: F tensor_pad(2) [OF ne(6) bs(6)] cnt)
  show "shape (advantages_t pt) = (length (token_ids_rows st), nat seq_len)"
    by (simp only: F tensor_pad(2) [OF ne(7) bs(7)] cnt)
  show "shape (deferred_t pt) = (length (token_ids_rows st), nat seq_len)"
    by (simp only: F tensor_pad(2) [OF ne(9) bs(9)] cnt)
  let ?m = "map (map (\<lambda>m. m \<noteq> 0)) (pad seq_len 0 (assistant_mask_rows st))"
  let ?w0 = "pad seq_len 0 (weights_rows st)"
  let ?w1 = "map2 (\<lambda>cr xr. map2 (\<lambda>b v. if b then v else 0) cr xr) ?m ?w0"
  have um: "list_all (\<lambda>row. length row = nat seq_len) ?m"
    using pad_bounded [OF bs(5), of 0] by (simp add: list_all_iff)
  have uw: "list_all (\<lambda>row. length row = nat seq_len) ?w0"
    by (rule pad_bounded [OF bs(8)])
  have nm: "?m \<noteq> []" and nw: "?w0 \<noteq> []" using ne by simp_all
  have cm: "cols ?m = nat seq_len" by (rule cols_uniform [OF nm um])
  have cw: "cols ?w0 = nat seq_len" by (rule cols_uniform [OF nw uw])
  show sm: "shape (assistant_mask_t pt) = (length (token_ids_rows st), nat seq_len)"
    by (simp add: F(5) shape_def cm cnt)
  have wh: "torch_where ?m ?w0 = Inr ?w1"
    by (rule torch_where_same_width) (simp only: cm cw)
  from F(9) obtain sel where w: "weights_t pt = masked_divide ?m ?w1 (tensor_mean sel)"
    unfolding F(5) wh by auto
  have "list_all (\<lambda>row. length row = nat seq_len) (masked_divide ?m ?w1 (tensor_mean sel))"
    unfolding masked_divide_def by (rule uniform_map2 [OF um uniform_map2 [OF um uw]])
  moreover have "masked_divide ?m ?w1 (tensor_mean sel) \<noteq> []"
    unfolding masked_divide_def by (intro map2_not_Nil nm nw)
  moreover have "length (masked_divide ?m ?w1 (tensor_mean sel)) = length (token_ids_rows st)"
    by (simp add: masked_divide_def cnt)
  ultimately show "shape (weights_t pt) = (length (token_ids_rows st), nat seq_len)"
    by (simp add: w shape_def cols_uniform)
qed

section \<open>Weights where no position is selected\<close>

lemma where_zero:
  assumes w: "torch_where c x = Inr w1"
    and no: "\<forall>cr \<in> set c. True \<notin> set cr"
    and u: "list_all (\<lambda>row. length row = cols c) c"
  shows "\<forall>xr \<in> set w1. \<forall>v \<in> set xr. v = 0"
proof (intro ballI)
  fix xr v
  assume xr: "xr \<in> set w1" and v: "v \<in> set xr"
  consider (eq) "cols c = cols x"
    | (bx) "cols c \<noteq> cols x" "cols x = 1"
    | (bc) "cols c \<noteq> cols x" "cols x \<noteq> 1" "cols c = 1"
    using w by (auto simp: torch_where_def split: if_splits)
  then show "v = 0"
  proof cases
    case eq
    with w have "w1 = map2 (\<lambda>cr xr. map2 (\<lambda>b v. if b then v else 0) cr xr) c x"
      by (simp add: torch_where_def)
    with xr obtain cr xr0 where "(cr, xr0) \<in> set (zip c x)"
      and "xr = map2 (\<lambda>b v. if b then v else 0) cr xr0" by auto
    with v obtain b v0 where "(b, v0) \<in> set (zip cr xr0)" "v = (if b then v0 else 0)"
      "cr \<in> set c" by (auto dest: set_zip_leftD)
    with no show ?thesis by (cases b) (auto dest: set_zip_leftD)
  next
    case bx
    with w have "w1 = map2 (\<lambda>cr xr. map (\<lambda>b. if b then hd xr else 0) cr) c x"
      by (simp add: torch_where_def)
    with xr obtain cr xr0 where "(cr, xr0) \<in> set (zip c x)"
      and "xr = map (\<lambda>b. if b then hd xr0 else 0) cr" by auto
    with v obtain b where "b \<in> set cr" "v = (if b then hd xr0 else 0)" "cr \<in> set c"
      by (auto dest: set_zip_leftD)
    with no show ?thesis by (cases b) auto
  next
    case bc
    with w have "w1 = map2 (\<lambda>cr xr. map (\<lambda>v. if hd cr then v else 0) xr) c x"
      by (simp add: torch_where_def)
    with xr obtain cr xr0 where z: "(cr, xr0) \<in> set (zip c x)"
      and "xr = map (\<lambda>v. if hd cr then v else 0) xr0" by auto
    with v have v': "v = 0 \<or> hd cr" by auto
    from z have crc: "cr \<in> set c" by (rule set_zip_leftD)
    with u bc have "length cr = 1" by (simp add: list_all_iff)
    then have "hd cr \<in> set cr" by (cases cr) simp_all
    with no crc have "\<not> hd cr" by (cases "hd cr") auto
    with v' show ?thesis by simp
  qed
qed

lemma masked_divide_unselected:
  assumes row: "row \<in> set (masked_divide m x d)" and w: "w \<in> set row"
    and no: "\<forall>mr \<in> set m. True \<notin> set mr"
  shows "\<exists>xr \<in> set x. \<exists>v \<in> set xr. w = Fin v"
proof -
  from row obtain mr xr where z: "(mr, xr) \<in> set (zip m x)"
    and r: "row = map2 (\<lambda>b v. if b then fdiv v d else Fin v) mr xr"
    by (auto simp: masked_divide_def)
  from w r obtain b v where bv: "(b, v) \<in> set (zip mr xr)"
    and "w = (if b then fdiv v d else Fin v)" by auto
  moreover from z have "mr \<in> set m" "xr \<in> set x" by (auto dest: set_zip_leftD set_zip_rightD)
  moreover from bv have "b \<in> set mr" "v \<in> set xr" by (auto dest: set_zip_leftD set_zip_rightD)
  ultimately show ?thesis using no by (cases b) auto
qed

lemma pack_loop_all_skipped:
  "\<forall>r \<in> set rs. skipped seq_len tr r \<Longrightarrow> pack_loop rand seq_len tr st rs = Inr st"
  by (induction rs) (simp_all add: loop_body_skipped)

section \<open>The common prompt of a group\<close>

lemma foldr_min_le: "foldr min ns (a::nat) \<le> a"
  by (induction ns) (simp_all add: min_le_iff_disj)

lemma foldr_min_le_elem: "n \<in> set ns \<Longrightarrow> foldr min ns (a::nat) \<le> n"
  by (induction ns) (auto simp: min_le_iff_disj)

lemma length_zip_star_le:
  "xs \<in> set xss \<Longrightarrow> length (zip_star xss) \<le> length xs"
proof (cases xss)
  case Nil
  then show "xs \<in> set xss \<Longrightarrow> ?thesis" by simp
next
  case (Cons y ys)
  assume "xs \<in> set xss"
  with Cons have "xs = y \<or> xs \<in> set ys" by simp
  then have "foldr min (map length ys) (length y) \<le> length xs"
    using foldr_min_le [of "map length ys" "length y"]
      foldr_min_le_elem [of "length xs" "map length ys" "length y"]
    by auto
  with Cons show ?thesis by (simp add: zip_star_def)
qed

lemma foldr_min_greatest: "k \<le> a \<Longrightarrow> \<forall>n \<in> set ns. k \<le> n \<Longrightarrow> k \<le> foldr min ns (a::nat)"
  by (induction ns) auto

lemma length_zip_star_greatest:
  assumes "xss \<noteq> []" and "\<forall>xs \<in> set xss. k \<le> length xs"
  shows "k \<le> length (zip_star xss)"
proof (cases xss)
  case Nil
  with assms show ?thesis by simp
next
  case (Cons y ys)
  with assms have "k \<le> foldr min (map length ys) (length y)"
    by (intro foldr_min_greatest) auto
  with Cons show ?thesis by (simp add: zip_star_def)
qed

lemma zip_star_nth:
  "i < length (zip_star xss) \<Longrightarrow> zip_star xss ! i = map (\<lambda>xs. xs ! i) xss"
  by (auto simp: zip_star_def split: if_splits)

lemma card_column_1:
  "card (set (map f xs)) = 1 \<longleftrightarrow> xs \<noteq> [] \<and> (\<forall>x \<in> set xs. \<forall>y \<in> set xs. f x = f y)"
proof
  assume "card (set (map f xs)) = 1"
  then have "card (f ` set xs) = Suc 0" by simp
  then obtain v where v: "f ` set xs = {v}"
    unfolding card_1_singleton_iff by blast
  then have "xs \<noteq> []" by auto
  moreover from v have "\<forall>x \<in> set xs. f x = v" by blast
  ultimately show "xs \<noteq> [] \<and> (\<forall>x \<in> set xs. \<forall>y \<in> set xs. f x = f y)" by simp
next
  assume a: "xs \<noteq> [] \<and> (\<forall>x \<in> set xs. \<forall>y \<in> set xs. f x = f y)"
  then obtain x where x: "x \<in> set xs" by (cases xs) auto
  with a have "\<forall>y \<in> set xs. f y = f x" by blast
  with x have "f ` set xs = {f x}" by blast
  then show "card (set (map f xs)) = 1" by simp
qed

lemma common_prompt_length_le:
  "r \<in> set rs \<Longrightarrow> common_prompt_length rs \<le> length (token_ids r)"
proof -
  assume r: "r \<in> set rs"
  have "common_prompt_length rs \<le> length (zip_star (map token_ids rs))"
    by (simp add: common_prompt_length_def length_takeWhile_le)
  also from r have "\<dots> \<le> length (token_ids r)"
    by (intro length_zip_star_le) simp
  finally show ?thesis .
qed

lemma common_prompt_length_same:
  assumes i: "i < common_prompt_length rs" and r: "r \<in> set rs" and r': "r' \<in> set rs"
  shows "token_ids r ! i = token_ids r' ! i"
proof -
  let ?cols = "zip_star (map token_ids rs)"
  let ?P = "\<lambda>x::int list. card (set x) = 1"
  from i have it: "i < length (takeWhile ?P ?cols)"
    by (simp add: common_prompt_length_def)
  then have il: "i < length ?cols"
    using length_takeWhile_le [of ?P ?cols] by simp
  from it have "takeWhile ?P ?cols ! i \<in> set (takeWhile ?P ?cols)" by simp
  then have "?P (takeWhile ?P ?cols ! i)" by (rule set_takeWhileD [THEN conjunct2])
  with it have "?P (?cols ! i)" by (simp add: takeWhile_nth)
  with il have "card (set (map (\<lambda>r. token_ids r ! i) rs)) = 1"
    by (simp add: zip_star_nth comp_def)
  then have "\<forall>x \<in> set rs. \<forall>y \<in> set rs. token_ids x ! i = token_ids y ! i"
    unfolding card_column_1 by blast
  with r r' show ?thesis by blast
qed

lemma common_prompt_length_greatest:
  assumes ne: "rs \<noteq> []"
    and len: "\<forall>r \<in> set rs. k \<le> length (token_ids r)"
    and same: "\<forall>i < k. \<forall>r \<in> set rs. \<forall>r' \<in> set rs. token_ids r ! i = token_ids r' ! i"
  shows "k \<le> common_prompt_length rs"
proof (rule ccontr)
  let ?cols = "zip_star (map token_ids rs)"
  let ?P = "\<lambda>x::int list. card (set x) = 1"
  let ?n = "length (takeWhile ?P ?cols)"
  assume "\<not> k \<le> common_prompt_length rs"
  then have lt: "?n < k" by (simp add: common_prompt_length_def)
  from ne len have "k \<le> length ?cols"
    by (intro length_zip_star_greatest) auto
  with lt have nl: "?n < length ?cols" by simp
  then have "\<not> ?P (?cols ! ?n)" by (rule nth_length_takeWhile)
  with nl have "card (set (map (\<lambda>r. token_ids r ! ?n) rs)) \<noteq> 1"
    by (simp add: zip_star_nth comp_def)
  then have "\<not> (rs \<noteq> [] \<and> (\<forall>x \<in> set rs. \<forall>y \<in> set rs. token_ids x ! ?n = token_ids y ! ?n))"
    unfolding card_column_1 .
  with ne same lt show False by blast
qed

lemma common_prompt_length_Nil: "common_prompt_length [] = 0"
  by (simp add: common_prompt_length_def zip_star_def)

section \<open>The zero at the end of every advantages row that was not clipped\<close>


lemma zero_unless_mono: "zero_unless C st \<Longrightarrow> C \<subseteq> D \<Longrightarrow> zero_unless D st"
  unfolding zero_unless_def by blast

lemma zero_unless_loop_body:
  assumes al: "aligned st" and z: "zero_unless C st"
    and run: "loop_body rand seq_len tr st result = Inr st'"
  shows "zero_unless
           (C \<union> (if clips seq_len tr st result then {length (token_ids_rows st') - 1} else {})) st'"
proof (cases "skipped seq_len tr result")
  case True
  with run have "st' = st" by (simp add: loop_body_def)
  with z show ?thesis by (auto intro: zero_unless_mono)
next
  case False
  note ne = aligned_not_Nil [OF al]
  from loop_body_Inr [OF run False] obtain st2 where
    app: "append_result rand (open_row seq_len st result) result = Inr st2"
    and st': "st' = (if tr then truncate_rows seq_len st2 else st2)"
    by auto
  note f = append_result_Inr [OF app]
  let ?A = "advantages_rows st"
  let ?A1 = "advantages_rows (open_row seq_len st result)"
  let ?eff = "effective_result (open_row seq_len st result) result"
  let ?n = "length (token_ids ?eff)"
  let ?row2 = "last (advantages_rows st2)"
  let ?row' = "if tr then slice_to seq_len ?row2 else ?row2"
  have al': "aligned st'" by (rule aligned_loop_body [OF al run])
  from al' have cnt': "length (advantages_rows st') = length (token_ids_rows st')"
    unfolding aligned_def by (auto dest: map_eq_imp_length_eq)
  have rows2: "advantages_rows st2 = butlast ?A1 @ [?row2]"
    by (rule f(8))
  have rows': "advantages_rows st' = butlast ?A1 @ [?row']"
    using st' rows2 f(10) by (simp add: truncate_rows_fields truncate_last_def)
  have last2: "last ?row2 = Fin 0" and ne2: "?row2 \<noteq> []"
    by (simp_all add: f(11))
  have "length (last ?A1 @ replicate ?n (advantage ?eff)) \<noteq> 0"
    using f(12) by (simp only: length_0_conv not_False_eq_True)
  then have l2: "length ?row2 = length (last ?A1) + ?n"
    by (simp add: f(11))
  have eq: "map length ?A = map length (token_ids_rows st)"
    using al by (simp add: aligned_def)
  have lastlen: "length (last ?A) = length (last (token_ids_rows st))"
    using arg_cong [OF eq, of last] ne by (simp add: last_map)
  have lastlen1: "length (last ?A1) = length (last (token_ids_rows (open_row seq_len st result)))"
    using lastlen by (simp add: open_row_fields append_row_def)
  have unclipped: "?row' = ?row2" if "\<not> clips seq_len tr st result"
  proof (cases tr)
    case False
    then show ?thesis by simp
  next
    case True
    with that False have "int (length ?row2) \<le> seq_len"
      by (simp add: clips_def l2 lastlen1)
    then show ?thesis by (simp add: slice_to_id)
  qed
  have old: "butlast ?A1 ! i = ?A ! i" if "i < length (butlast ?A1)" for i
    using that by (auto simp: open_row_fields append_row_def nth_butlast nth_append split: if_splits)
  have oldlen: "length (butlast ?A1) \<le> length ?A"
    by (simp add: open_row_fields append_row_def)
  show ?thesis
    unfolding zero_unless_def
  proof (intro allI impI)
    fix i
    assume i: "i < length (advantages_rows st')"
      and notin: "i \<notin> C \<union> (if clips seq_len tr st result
                               then {length (token_ids_rows st') - 1} else {})"
      and nonempty: "advantages_rows st' ! i \<noteq> []"
    show "last (advantages_rows st' ! i) = Fin 0"
    proof (cases "i < length (butlast ?A1)")
      case True
      then have "advantages_rows st' ! i = ?A ! i"
        by (simp add: rows' nth_append old)
      moreover from True oldlen have "i < length ?A" by simp
      moreover from notin have "i \<notin> C" by simp
      ultimately show ?thesis using z nonempty by (simp add: zero_unless_def)
    next
      case False
      with i have ii: "i = length (butlast ?A1)" by (simp add: rows')
      have row: "advantages_rows st' ! i = ?row'"
        unfolding rows' ii by (rule nth_append_length)
      from ii have "i = length (advantages_rows st') - 1" by (simp add: rows')
      with cnt' have "i = length (token_ids_rows st') - 1" by simp
      with notin have "\<not> clips seq_len tr st result" by (auto split: if_splits)
      from unclipped [OF this] row last2 show ?thesis by simp
    qed
  qed
qed

lemma zero_unless_pack_loop:
  "aligned st \<Longrightarrow> zero_unless C st \<Longrightarrow> pack_loop rand seq_len tr st results = Inr st' \<Longrightarrow>
   zero_unless (C \<union> clipped_rows rand seq_len tr st results) st'"
proof (induction results arbitrary: st C)
  case Nil
  then show ?case by simp
next
  case (Cons r rs)
  from Cons.prems(3) obtain st1 where
    b: "loop_body rand seq_len tr st r = Inr st1"
    and l: "pack_loop rand seq_len tr st1 rs = Inr st'"
    by (auto split: sum.splits)
  let ?D = "C \<union> (if clips seq_len tr st r then {length (token_ids_rows st1) - 1} else {})"
  from Cons.IH [OF aligned_loop_body [OF Cons.prems(1) b]
      zero_unless_loop_body [OF Cons.prems(1,2) b] l]
  have "zero_unless (?D \<union> clipped_rows rand seq_len tr st1 rs) st'" .
  moreover have "?D \<union> clipped_rows rand seq_len tr st1 rs
      = C \<union> clipped_rows rand seq_len tr st (r # rs)"
    using b by (simp add: Un_assoc)
  ultimately show ?case by simp
qed

lemma init_state_zero_unless: "zero_unless {} init_state"
  by (simp add: zero_unless_def init_state_def)

lemma not_clips_when_fits:
  assumes "tr \<longrightarrow> int (length (token_ids result)) \<le> seq_len"
  shows "\<not> clips seq_len tr st result"
proof
  assume c: "clips seq_len tr st result"
  then have ns: "\<not> skipped seq_len tr result" by (auto simp: clips_def)
  from result_fits [OF ns assms, of st] c show False
    by (auto simp: clips_def open_row_def split: if_splits)
qed

lemma clipped_rows_empty:
  "tr \<longrightarrow> (\<forall>r \<in> set results. int (length (token_ids r)) \<le> seq_len) \<Longrightarrow>
   clipped_rows rand seq_len tr st results = {}"
proof (induction results arbitrary: st)
  case Nil
  then show ?case by simp
next
  case (Cons r rs)
  from Cons.prems have f: "tr \<longrightarrow> int (length (token_ids r)) \<le> seq_len"
    and fs: "tr \<longrightarrow> (\<forall>r \<in> set rs. int (length (token_ids r)) \<le> seq_len)"
    by simp_all
  show ?case
    using not_clips_when_fits [OF f, of st] Cons.IH [OF fs]
    by (simp split: sum.splits)
qed

section \<open>Positive weights and the selected positions\<close>

























section \<open>The prompt id as a marker in the row\<close>










section \<open>Claims about the log-probability channel\<close>

text \<open>
  C1 (as stated, refuted). A result whose non-empty \<^verbatim>\<open>token_logprobs\<close> has fewer entries than
  its assistant mask has positions is not packed with leading NaNs: the assertion of line 100
  fails. Here a result with two assistant positions and one log-probability.
\<close>

theorem partial_logprobs_rejected_counterexample:
  "packed_tensors_from_tokenized_results example_rand [example_short_logprobs] 4 (- 100) True
     = Inl AssertionError"
  by (simp add: eval_defs example_short_logprobs_def)

text \<open>
  C1 (amended). For a result that is packed, with \<open>eff\<close> its effective form and \<open>n\<close> the
  number of its token ids:
  \<^item> when \<^verbatim>\<open>token_logprobs\<close> of \<open>eff\<close> is non-empty and has fewer entries than \<open>eff\<close> has
    assistant positions, the loop body raises AssertionError (line 100);
  \<^item> when it is non-empty and the loop body returns, it has at least as many entries as
    there are assistant positions, the \<open>k\<close>-th assistant position of the appended span holds
    the \<open>k\<close>-th of the trailing entries (a falsy value replaced by NaN), surplus leading
    entries are ignored, and every other position of the span is NaN;
  \<^item> when it is absent or empty, every position of the appended span is NaN.
  Positions are read in the row after truncation, where truncation has kept them.
\<close>

theorem logprobs_overlay_trailing:
  fixes rand seq_len tr st result0
  defines "st1 \<equiv> open_row seq_len st result0"
  defines "eff \<equiv> effective_result st1 result0"
  defines "ai \<equiv> assistant_indices (assistant_mask eff)"
  defines "old \<equiv> last (logprobs_rows st1)"
  defines "offset \<equiv> length (last (logprobs_rows st1))"
  defines "n \<equiv> length (token_ids eff)"
  assumes ns: "\<not> skipped seq_len tr result0"
  shows "(\<forall>lps. token_logprobs eff = Some lps \<and> lps \<noteq> [] \<longrightarrow>
            (length lps < length ai \<longrightarrow>
               loop_body rand seq_len tr st result0 = Inl AssertionError)
          \<and> (\<forall>st'. loop_body rand seq_len tr st result0 = Inr st' \<longrightarrow>
                length ai \<le> length lps
              \<and> (\<forall>k < length ai. (tr \<longrightarrow> int (ai ! k + offset) < seq_len) \<longrightarrow>
                    last (logprobs_rows st') ! (ai ! k + offset)
                      = or_nan (logprob (lps ! (length lps - length ai + k))))
              \<and> (\<forall>j < n. j \<notin> set ai \<longrightarrow> (tr \<longrightarrow> int (j + offset) < seq_len) \<longrightarrow>
                    last (logprobs_rows st') ! (j + offset) = NaN)))
       \<and> (token_logprobs eff = None \<or> token_logprobs eff = Some [] \<longrightarrow>
            (\<forall>st'. loop_body rand seq_len tr st result0 = Inr st' \<longrightarrow>
               last (logprobs_rows st') =
                 (if tr then slice_to seq_len (old @ replicate n NaN) else old @ replicate n NaN)))"
proof -
  have ret: "\<exists>st2. append_result rand st1 result0 = Inr st2
        \<and> st' = (if tr then truncate_rows seq_len st2 else st2)
        \<and> overlay_logprobs eff offset (old @ replicate n NaN) = Inr (last (logprobs_rows st2))"
    if run: "loop_body rand seq_len tr st result0 = Inr st'" for st'
  proof -
    from loop_body_Inr [OF run ns] obtain st2 where
      app: "append_result rand st1 result0 = Inr st2"
      and st': "st' = (if tr then truncate_rows seq_len st2 else st2)"
      by (auto simp: st1_def)
    from last_logprobs_append_result [OF app]
    have "overlay_logprobs eff offset (old @ replicate n NaN) = Inr (last (logprobs_rows st2))"
      by (simp add: eff_def offset_def old_def n_def)
    with app st' show ?thesis by blast
  qed
  have kept: "last (logprobs_rows st') ! i = last (logprobs_rows st2) ! i"
    if "st' = (if tr then truncate_rows seq_len st2 else st2)" "tr \<longrightarrow> int i < seq_len"
    for st' st2 i
    using that by (cases tr) (simp_all add: truncate_rows_def slice_to_nth)
  have some: "(length lps < length ai \<longrightarrow>
               loop_body rand seq_len tr st result0 = Inl AssertionError)
          \<and> (\<forall>st'. loop_body rand seq_len tr st result0 = Inr st' \<longrightarrow>
                length ai \<le> length lps
              \<and> (\<forall>k < length ai. (tr \<longrightarrow> int (ai ! k + offset) < seq_len) \<longrightarrow>
                    last (logprobs_rows st') ! (ai ! k + offset)
                      = or_nan (logprob (lps ! (length lps - length ai + k))))
              \<and> (\<forall>j < n. j \<notin> set ai \<longrightarrow> (tr \<longrightarrow> int (j + offset) < seq_len) \<longrightarrow>
                    last (logprobs_rows st') ! (j + offset) = NaN))"
    if lps: "token_logprobs eff = Some lps" "lps \<noteq> []" for lps
  proof (intro conjI impI allI)
    assume "length lps < length ai"
    with lps have "overlay_logprobs eff offset
          (last (logprobs_rows st1) @ replicate (length (token_ids eff)) NaN) = Inl AssertionError"
      by (simp add: overlay_logprobs_assert ai_def)
    then have "append_result rand st1 result0 = Inl AssertionError"
      by (simp add: append_result_assert eff_def offset_def)
    with ns show "loop_body rand seq_len tr st result0 = Inl AssertionError"
      by (simp add: loop_body_def st1_def)
  next
    fix st'
    assume run: "loop_body rand seq_len tr st result0 = Inr st'"
    from ret [OF run] obtain st2 where
      st': "st' = (if tr then truncate_rows seq_len st2 else st2)"
      and ov: "overlay_logprobs eff offset (old @ replicate n NaN) = Inr (last (logprobs_rows st2))"
      by blast
    from ov lps show "length ai \<le> length lps"
      by (auto simp: overlay_logprobs_def ai_def split: if_splits)
  next
    fix st' k
    assume run: "loop_body rand seq_len tr st result0 = Inr st'"
      and k: "k < length ai" and keep: "tr \<longrightarrow> int (ai ! k + offset) < seq_len"
    from ret [OF run] obtain st2 where
      st': "st' = (if tr then truncate_rows seq_len st2 else st2)"
      and ov: "overlay_logprobs eff offset (old @ replicate n NaN) = Inr (last (logprobs_rows st2))"
      by blast
    from overlay_logprobs_nth [OF ov lps] k
    have "last (logprobs_rows st2) ! (ai ! k + offset)
            = or_nan (logprob (lps ! (length lps - length ai + k)))"
      by (simp add: ai_def)
    with kept [OF st' keep]
    show "last (logprobs_rows st') ! (ai ! k + offset)
            = or_nan (logprob (lps ! (length lps - length ai + k)))"
      by simp
  next
    fix st' j
    assume run: "loop_body rand seq_len tr st result0 = Inr st'"
      and j: "j < n" and nj: "j \<notin> set ai" and keep: "tr \<longrightarrow> int (j + offset) < seq_len"
    from ret [OF run] obtain st2 where
      st': "st' = (if tr then truncate_rows seq_len st2 else st2)"
      and ov: "overlay_logprobs eff offset (old @ replicate n NaN) = Inr (last (logprobs_rows st2))"
      by blast
    from overlay_logprobs_untouched [OF ov nj [unfolded ai_def]] j
    have "last (logprobs_rows st2) ! (j + offset) = NaN"
      by (simp add: nth_append offset_def old_def)
    with kept [OF st' keep] show "last (logprobs_rows st') ! (j + offset) = NaN" by simp
  qed
  have none: "\<forall>st'. loop_body rand seq_len tr st result0 = Inr st' \<longrightarrow>
               last (logprobs_rows st') =
                 (if tr then slice_to seq_len (old @ replicate n NaN) else old @ replicate n NaN)"
    if absent: "token_logprobs eff = None \<or> token_logprobs eff = Some []"
  proof (intro allI impI)
    fix st'
    assume run: "loop_body rand seq_len tr st result0 = Inr st'"
    from ret [OF run] obtain st2 where
      st': "st' = (if tr then truncate_rows seq_len st2 else st2)"
      and ov: "overlay_logprobs eff offset (old @ replicate n NaN) = Inr (last (logprobs_rows st2))"
      by blast
    from ov overlay_logprobs_absent [OF absent, of offset "old @ replicate n NaN"]
    have "last (logprobs_rows st2) = old @ replicate n NaN" by simp
    with st' show "last (logprobs_rows st') =
                 (if tr then slice_to seq_len (old @ replicate n NaN) else old @ replicate n NaN)"
      by (simp add: truncate_rows_def)
  qed
  from some none show ?thesis by blast
qed

theorem logprobs_overlay_trailing_witness:
  "loop_body example_rand 4 True init_state example_short_logprobs = Inl AssertionError
   \<and> (\<exists>st'. loop_body example_rand 4 True init_state example_surplus_logprobs = Inr st'
        \<and> last (logprobs_rows st') ! 1 = Fin (- 3))
   \<and> (\<exists>st'. loop_body example_rand 4 True init_state example_four_tokens = Inr st'
        \<and> last (logprobs_rows st') = [NaN, NaN, NaN, NaN])"
proof -
  have ns1: "\<not> skipped 4 True example_short_logprobs"
    by (simp add: skipped_def example_short_logprobs_def example_result_def)
  have a: "loop_body example_rand 4 True init_state example_short_logprobs = Inl AssertionError"
    using logprobs_overlay_trailing [OF ns1, of init_state example_rand]
    by (simp add: eval_defs example_short_logprobs_def)
  have ns2: "\<not> skipped 4 True example_surplus_logprobs"
    by (simp add: skipped_def example_surplus_logprobs_def example_result_def)
  obtain st' where run: "loop_body example_rand 4 True init_state example_surplus_logprobs = Inr st'"
    by (simp add: eval_defs example_surplus_logprobs_def)
  have b: "last (logprobs_rows st') ! 1 = Fin (- 3)"
    using logprobs_overlay_trailing [OF ns2, of init_state example_rand] run
    by (auto simp add: eval_defs example_surplus_logprobs_def)
  have ns3: "\<not> skipped 4 True example_four_tokens"
    by (simp add: skipped_def example_four_tokens_def example_result_def)
  obtain st3 where run3: "loop_body example_rand 4 True init_state example_four_tokens = Inr st3"
    by (simp add: eval_defs example_four_tokens_def)
  have c: "last (logprobs_rows st3) = [NaN, NaN, NaN, NaN]"
    using logprobs_overlay_trailing [OF ns3, of init_state example_rand] run3
    by (auto simp add: eval_defs example_four_tokens_def eval_nat_numeral)
  from a b c run run3 show ?thesis by blast
qed

section \<open>Claims about the weight normalization\<close>



section \<open>Claims about the advantages\<close>

text \<open>
  C3 (as stated, refuted). With truncation enabled and \<^verbatim>\<open>seq_len = 4\<close>, a result of five tokens
  with advantage 1 is clipped after the zero was written at its fifth position: the row ends
  with advantage 1 at its last non-padding position.
\<close>

theorem last_advantage_after_truncation_counterexample:
  "packed_tensors_from_tokenized_results example_rand [example_five_tokens] 4 (- 100) True =
     Inr \<lparr> tokens_t = [[- 100, - 100, - 100, - 100], [1, 2, 7, 8]],
           group_ids_t = [[- 1, - 1, - 1, - 1], [9, 9, 5, 5]],
           parent_ids_t = [[- 1, - 1, - 1, - 1], [9, 9, 9, 9]],
           input_pos_t = [[0, 0, 0, 0], [0, 1, 2, 3]],
           assistant_mask_t = [[False, False, False, False], [False, False, True, True]],
           logprobs_t = [[NaN, NaN, NaN, NaN], [NaN, NaN, NaN, NaN]],
           advantages_t = [[Fin 0, Fin 0, Fin 0, Fin 0], [Fin 1, Fin 1, Fin 1, Fin 1]],
           weights_t = [[Fin 0, Fin 0, Fin 0, Fin 0], [Fin 0, Fin 0, Fin 1, Fin 1]],
           deferred_t = [[False, False, False, False], [False, False, False, False]] \<rparr>"
  by (simp add: eval_defs example_five_tokens_def eval_nat_numeral)

text \<open>
  C3 (amended). Every row of the output that has content and that truncation has not clipped
  has advantage exactly 0 at its last non-padding position, whatever the advantages of the
  results: the content of row \<open>i\<close> is the prefix of the tokens row that the loop built, and
  the advantage at its last index is 0. A row is clipped when truncation is enabled and a
  result appended to it made it longer than \<^verbatim>\<open>seq_len\<close>; no row is clipped when truncation is
  disabled or no result is longer than \<^verbatim>\<open>seq_len\<close>.
\<close>

theorem unclipped_rows_end_with_zero:
  assumes loop: "pack_loop rand seq_len tr init_state rs = Inr st"
    and ret: "packed_tensors_from_tokenized_results rand rs seq_len p tr = Inr pt"
  shows "(\<forall>i < length (token_ids_rows st).
            i \<notin> clipped_rows rand seq_len tr init_state rs \<longrightarrow>
              take (length (token_ids_rows st ! i)) (tokens_t pt ! i) = token_ids_rows st ! i
            \<and> (token_ids_rows st ! i \<noteq> [] \<longrightarrow>
                 advantages_t pt ! i ! (length (token_ids_rows st ! i) - 1) = Fin 0))
       \<and> ((tr \<longrightarrow> (\<forall>r \<in> set rs. int (length (token_ids r)) \<le> seq_len)) \<longrightarrow>
            clipped_rows rand seq_len tr init_state rs = {})"
proof -
  have rows: "take (length (token_ids_rows st ! i)) (tokens_t pt ! i) = token_ids_rows st ! i
         \<and> (token_ids_rows st ! i \<noteq> [] \<longrightarrow>
              advantages_t pt ! i ! (length (token_ids_rows st ! i) - 1) = Fin 0)"
    if i: "i < length (token_ids_rows st)"
      and unclipped: "i \<notin> clipped_rows rand seq_len tr init_state rs" for i
  proof -
  from loop ret have f: "finalize seq_len p st = Inr pt"
    by (simp add: packed_tensors_from_tokenized_results_def bind_def)
  have al: "aligned st" by (rule pack_loop_aligned [OF init_state_aligned(2) loop])
  from zero_unless_pack_loop [OF init_state_aligned(2) init_state_zero_unless loop]
  have z: "zero_unless (clipped_rows rand seq_len tr init_state rs) st" by simp
  from al have eq: "map length (advantages_rows st) = map length (token_ids_rows st)"
    by (simp add: aligned_def)
  then have cnt: "length (advantages_rows st) = length (token_ids_rows st)"
    by (rule map_eq_imp_length_eq)
  from arg_cong [OF eq, of "\<lambda>ls. ls ! i"] i cnt
  have li: "length (advantages_rows st ! i) = length (token_ids_rows st ! i)" by simp
  have tok: "take (length (token_ids_rows st ! i)) (tokens_t pt ! i) = token_ids_rows st ! i"
    using i by (simp add: finalize_Inr(1) [OF f] pad_nth)
  have adv: "advantages_t pt ! i ! (length (token_ids_rows st ! i) - 1) = Fin 0"
    if ne: "token_ids_rows st ! i \<noteq> []"
  proof -
    from ne li have ane: "advantages_rows st ! i \<noteq> []" by auto
    with z unclipped i cnt have "last (advantages_rows st ! i) = Fin 0"
      by (simp add: zero_unless_def)
    moreover from ne have "length (token_ids_rows st ! i) - 1 < length (token_ids_rows st ! i)"
      by simp
    ultimately show ?thesis using ane li i cnt
      by (simp add: finalize_Inr(7) [OF f] pad_nth nth_append last_conv_nth)
  qed
    from tok adv show ?thesis by simp
  qed
  have none: "clipped_rows rand seq_len tr init_state rs = {}"
    if "tr \<longrightarrow> (\<forall>r \<in> set rs. int (length (token_ids r)) \<le> seq_len)"
    using that by (rule clipped_rows_empty)
  from rows none show ?thesis by blast
qed

theorem unclipped_rows_end_with_zero_witness:
  "\<exists>pt. packed_tensors_from_tokenized_results example_rand
           [example_three_tokens, example_five_tokens] 4 (- 100) True = Inr pt
     \<and> tokens_t pt = [[1, 2, 3, - 100], [1, 2, 7, 8]]
     \<and> advantages_t pt ! 0 ! 2 = Fin 0"
proof -
  obtain st where loop:
    "pack_loop example_rand 4 True init_state [example_three_tokens, example_five_tokens] = Inr st"
    by (simp add: eval_defs example_three_tokens_def example_five_tokens_def)
  then have rows: "token_ids_rows st = [[1, 2, 3], [1, 2, 7, 8]]"
    by (auto simp add: eval_defs example_three_tokens_def example_five_tokens_def)
  obtain pt where ret:
    "packed_tensors_from_tokenized_results example_rand
       [example_three_tokens, example_five_tokens] 4 (- 100) True = Inr pt"
    by (simp add: eval_defs example_three_tokens_def example_five_tokens_def)
  then have tok: "tokens_t pt = [[1, 2, 3, - 100], [1, 2, 7, 8]]"
    by (auto simp add: eval_defs example_three_tokens_def example_five_tokens_def)
  have c: "0 \<notin> clipped_rows example_rand 4 True init_state
                 [example_three_tokens, example_five_tokens]"
    by (simp add: clips_def eval_defs example_three_tokens_def example_five_tokens_def)
  from unclipped_rows_end_with_zero [OF loop ret] rows c
  have "advantages_t pt ! 0 ! 2 = Fin 0" by (auto simp add: eval_nat_numeral)
  with ret tok show ?thesis by blast
qed

section \<open>Claims about a batch without assistant positions\<close>

text \<open>
  C4 (as stated, refuted). A batch whose only result has no assistant token contributes no
  assistant position; the function raises nothing and returns a row of padding whose weights
  are 0.0.
\<close>

theorem no_empty_batch_error_counterexample:
  "packed_tensors_from_tokenized_results example_rand [example_no_assistant] 2 (- 100) True =
     Inr \<lparr> tokens_t = [[- 100, - 100]], group_ids_t = [[- 1, - 1]], parent_ids_t = [[- 1, - 1]],
           input_pos_t = [[0, 0]], assistant_mask_t = [[False, False]],
           logprobs_t = [[NaN, NaN]], advantages_t = [[Fin 0, Fin 0]],
           weights_t = [[Fin 0, Fin 0]], deferred_t = [[False, False]] \<rparr>"
  by (simp add: eval_defs example_no_assistant_def numeral_2_eq_2)

text \<open>
  C4 (amended). There is no check for an empty batch. When the output has no assistant position
  the mean is taken over no element and nothing is divided by it: every weight of the returned
  tensors is exactly 0.0, none is NaN or infinite. In particular, for a non-negative
  \<^verbatim>\<open>seq_len\<close>, a batch in which every result is skipped is packed without an error into
  tensors without any assistant position.
\<close>

theorem no_assistant_positions_zero_weights:
  "(\<forall>pt. packed_tensors_from_tokenized_results rand rs seq_len p tr = Inr pt
          \<and> (\<forall>row \<in> set (assistant_mask_t pt). True \<notin> set row)
        \<longrightarrow> (\<forall>row \<in> set (weights_t pt). \<forall>w \<in> set row. w = Fin 0))
   \<and> (0 \<le> seq_len \<and> (\<forall>r \<in> set rs. skipped seq_len tr r)
        \<longrightarrow> (\<exists>pt. packed_tensors_from_tokenized_results rand rs seq_len p tr = Inr pt
               \<and> (\<forall>row \<in> set (assistant_mask_t pt). True \<notin> set row)))"
proof (intro conjI allI impI)
  fix pt
  assume a: "packed_tensors_from_tokenized_results rand rs seq_len p tr = Inr pt
          \<and> (\<forall>row \<in> set (assistant_mask_t pt). True \<notin> set row)"
  then obtain st where f: "finalize seq_len p st = Inr pt"
    by (auto simp: packed_tensors_from_tokenized_results_def bind_Inr)
  from a have no: "\<forall>row \<in> set (assistant_mask_t pt). True \<notin> set row" by simp
  from finalize_Inr(9) [OF f] obtain weights1 selected where
    w: "torch_where (assistant_mask_t pt) (pad seq_len 0 (weights_rows st)) = Inr weights1"
    and wt: "weights_t pt = masked_divide (assistant_mask_t pt) weights1 (tensor_mean selected)"
    by blast
  note z = where_zero [OF w no finalize_Inr(10) [OF f]]
  show "\<forall>row \<in> set (weights_t pt). \<forall>w \<in> set row. w = Fin 0"
  proof (intro ballI)
    fix row w
    assume "row \<in> set (weights_t pt)" and "w \<in> set row"
    with wt masked_divide_unselected [OF _ _ no, of row weights1 "tensor_mean selected" w]
    obtain xr v where "xr \<in> set weights1" "v \<in> set xr" "w = Fin v" by auto
    with z show "w = Fin 0" by simp
  qed
next
  assume a: "0 \<le> seq_len \<and> (\<forall>r \<in> set rs. skipped seq_len tr r)"
  then have loop: "pack_loop rand seq_len tr init_state rs = Inr init_state"
    by (simp add: pack_loop_all_skipped)
  from a finalize_returns [OF init_state_aligned(2) init_state_bounded, of seq_len p]
  obtain pt where f: "finalize seq_len p init_state = Inr pt" by auto
  have "\<forall>row \<in> set (assistant_mask_t pt). True \<notin> set row"
    by (auto simp: finalize_Inr(5) [OF f] init_state_def pad_def repeat_def)
  with loop f show "\<exists>pt. packed_tensors_from_tokenized_results rand rs seq_len p tr = Inr pt
               \<and> (\<forall>row \<in> set (assistant_mask_t pt). True \<notin> set row)"
    by (auto simp: packed_tensors_from_tokenized_results_def bind_def)
qed

theorem no_assistant_positions_zero_weights_witness:
  "\<exists>pt. packed_tensors_from_tokenized_results example_rand [example_no_assistant] 2 (- 100) True = Inr pt
     \<and> list_all (list_all (\<lambda>w. w = Fin 0)) (weights_t pt)"
proof -
  note T = no_assistant_positions_zero_weights
    [of example_rand "[example_no_assistant]" 2 "- 100" True]
  have sk: "skipped 2 True example_no_assistant"
    by (simp add: skipped_def example_no_assistant_def example_result_def)
  with T obtain pt where
    r: "packed_tensors_from_tokenized_results example_rand [example_no_assistant] 2 (- 100) True = Inr pt"
    and no: "\<forall>row \<in> set (assistant_mask_t pt). True \<notin> set row"
    by auto
  with T have "\<forall>row \<in> set (weights_t pt). \<forall>w \<in> set row. w = Fin 0" by blast
  then have "list_all (list_all (\<lambda>w. w = Fin 0)) (weights_t pt)"
    by (simp add: list_all_iff)
  with r show ?thesis by blast
qed

section \<open>Claims about the shape of the output\<close>

text \<open>
  C5. Valid input: a non-negative \<^verbatim>\<open>seq_len\<close>, and results whose \<^verbatim>\<open>token_ids\<close>,
  \<^verbatim>\<open>input_pos\<close> and \<^verbatim>\<open>assistant_mask\<close> have one length and whose prompt length lies between 0
  and that length (with truncation enabled the results may be arbitrary). For every such
  input, pad token id and truncation setting, the tensors the function returns have, in all
  nine channels, the shape \<open>(R, seq_len)\<close> for the number \<open>R \<ge> 1\<close> of rows the loop built, and
  no row the loop built, in any channel, is longer than \<^verbatim>\<open>seq_len\<close>.
\<close>

theorem packed_shape:
  assumes sl: "0 \<le> seq_len"
    and valid: "tr \<or> (\<forall>r \<in> set rs. consistent_lengths r)"
    and ret: "packed_tensors_from_tokenized_results rand rs seq_len p tr = Inr pt"
  shows "\<exists>st R. pack_loop rand seq_len tr init_state rs = Inr st
           \<and> bounded seq_len st
           \<and> R = length (token_ids_rows st) \<and> 1 \<le> R
           \<and> shape (tokens_t pt) = (R, nat seq_len)
           \<and> shape (group_ids_t pt) = (R, nat seq_len)
           \<and> shape (parent_ids_t pt) = (R, nat seq_len)
           \<and> shape (input_pos_t pt) = (R, nat seq_len)
           \<and> shape (assistant_mask_t pt) = (R, nat seq_len)
           \<and> shape (logprobs_t pt) = (R, nat seq_len)
           \<and> shape (advantages_t pt) = (R, nat seq_len)
           \<and> shape (weights_t pt) = (R, nat seq_len)
           \<and> shape (deferred_t pt) = (R, nat seq_len)"
proof -
  from ret obtain st where loop: "pack_loop rand seq_len tr init_state rs = Inr st"
    and f: "finalize seq_len p st = Inr pt"
    by (auto simp: packed_tensors_from_tokenized_results_def bind_Inr)
  have al: "aligned st"
    by (rule pack_loop_aligned [OF init_state_aligned(2) loop])
  have b: "bounded seq_len st"
  proof (cases tr)
    case True
    with loop show ?thesis
      by (intro pack_loop_bounded_tr [OF sl init_state_aligned(2) init_state_bounded [OF sl]]) simp
  next
    case False
    with valid have "\<forall>r \<in> set rs. consistent_lengths r \<and> (tr \<longrightarrow> int (length (token_ids r)) \<le> seq_len)"
      by simp
    from pack_loop_bounded_fit [OF this init_state_aligned(1) init_state_bounded [OF sl] loop]
    show ?thesis .
  qed
  from aligned_not_Nil(1) [OF al] have "1 \<le> length (token_ids_rows st)"
    by (cases "token_ids_rows st") simp_all
  with loop b finalize_shapes [OF al b f] show ?thesis by blast
qed

theorem packed_shape_witness:
  "\<exists>pt. packed_tensors_from_tokenized_results example_rand
           [example_three_tokens, example_five_tokens] 4 (- 100) True = Inr pt
     \<and> shape (tokens_t pt) = (2, 4) \<and> shape (input_pos_t pt) = (2, 4)
     \<and> shape (weights_t pt) = (2, 4)"
proof -
  obtain st where loop:
    "pack_loop example_rand 4 True init_state [example_three_tokens, example_five_tokens] = Inr st"
    by (simp add: eval_defs example_three_tokens_def example_five_tokens_def)
  then have n: "length (token_ids_rows st) = 2"
    by (auto simp add: eval_defs example_three_tokens_def example_five_tokens_def)
  obtain pt where ret:
    "packed_tensors_from_tokenized_results example_rand
       [example_three_tokens, example_five_tokens] 4 (- 100) True = Inr pt"
    by (simp add: eval_defs example_three_tokens_def example_five_tokens_def)
  have valid: "True \<or> (\<forall>r \<in> set [example_three_tokens, example_five_tokens]. consistent_lengths r)"
    by simp
  from packed_shape [OF _ valid ret] loop n have
    "shape (tokens_t pt) = (2, 4) \<and> shape (input_pos_t pt) = (2, 4)
     \<and> shape (weights_t pt) = (2, 4)"
    by auto
  with ret show ?thesis by blast
qed

section \<open>Claims about the packing loop\<close>

text \<open>
  C6. For a result that is packed (not skipped), the loop body opens a fresh row exactly when
  the filled length of the current row plus the effective length of the result (the length
  without the prompt when the result's prompt id is among the group ids of the current row,
  the full length otherwise) is strictly greater than \<^verbatim>\<open>seq_len\<close>. Then the closed row is left
  as it was and the fresh row receives the full result; otherwise, in particular when the
  result fills the row to exactly \<^verbatim>\<open>seq_len\<close>, the effective result is appended to the current
  row and no row is added.
\<close>

theorem row_opened_iff_exceeds:
  fixes rand seq_len tr st result
  defines "filled \<equiv> int (length (last (token_ids_rows st)))"
  defines "eff_len \<equiv> (if prompt_id result \<in> set (last (group_ids_rows st))
                        then int (length (token_ids (without_prompt result)))
                        else int (length (token_ids result)))"
  assumes run: "loop_body rand seq_len tr st result = Inr st'"
    and ns: "\<not> skipped seq_len tr result"
    and rows: "token_ids_rows st \<noteq> []"
  shows "((length (token_ids_rows st') = Suc (length (token_ids_rows st))) \<longleftrightarrow>
            filled + eff_len > seq_len)
       \<and> (filled + eff_len > seq_len \<longrightarrow>
            token_ids_rows st' =
              token_ids_rows st @ [if tr then slice_to seq_len (token_ids result) else token_ids result])
       \<and> (filled + eff_len \<le> seq_len \<longrightarrow>
            token_ids_rows st' =
              butlast (token_ids_rows st)
              @ [last (token_ids_rows st) @ token_ids (effective_result st result)])"
proof -
  have eff: "eff_len = effective_length st result"
    by (simp add: effective_length_def eff_len_def)
  from loop_body_Inr [OF run ns] obtain st2 where
    app: "append_result rand (open_row seq_len st result) result = Inr st2"
    and st': "st' = (if tr then truncate_rows seq_len st2 else st2)"
    by auto
  note tok = append_result_Inr(1) [OF app]
  have big: "token_ids_rows st' =
             token_ids_rows st @ [if tr then slice_to seq_len (token_ids result) else token_ids result]"
    if "filled + eff_len > seq_len"
    using that tok st' unfolding eff filled_def
    by (simp add: open_row_def needs_new_row_def truncate_rows_def truncate_last_def extend_last_def)
  have small: "token_ids_rows st' =
             butlast (token_ids_rows st) @ [last (token_ids_rows st) @ token_ids (effective_result st result)]"
    if "filled + eff_len \<le> seq_len"
    using that tok st' unfolding eff filled_def
    by (simp add: open_row_def needs_new_row_def truncate_rows_def truncate_last_def extend_last_def
        effective_length_eq slice_to_id)
  have "(length (token_ids_rows st') = Suc (length (token_ids_rows st))) \<longleftrightarrow>
           filled + eff_len > seq_len"
  proof (cases "filled + eff_len > seq_len")
    case True
    with big show ?thesis by simp
  next
    case False
    with small rows show ?thesis by simp
  qed
  with big small show ?thesis by simp
qed

theorem row_opened_iff_exceeds_witness:
  "(\<exists>st'. loop_body example_rand 4 True init_state example_four_tokens = Inr st'
      \<and> token_ids_rows st' = [[1, 2, 7, 8]])
   \<and> (\<exists>st'. loop_body example_rand 4 True init_state example_five_tokens = Inr st'
      \<and> length (token_ids_rows st') = 2)"
proof -
  obtain st1 where run1: "loop_body example_rand 4 True init_state example_four_tokens = Inr st1"
    by (simp add: eval_defs example_four_tokens_def)
  have "token_ids_rows st1 = [[1, 2, 7, 8]]"
    using row_opened_iff_exceeds [OF run1]
    by (simp add: eval_defs example_four_tokens_def)
  with run1 have a: "\<exists>st'. loop_body example_rand 4 True init_state example_four_tokens = Inr st'
      \<and> token_ids_rows st' = [[1, 2, 7, 8]]" by blast
  obtain st2 where run2: "loop_body example_rand 4 True init_state example_five_tokens = Inr st2"
    by (simp add: eval_defs example_five_tokens_def)
  have "length (token_ids_rows st2) = 2"
    using row_opened_iff_exceeds [OF run2]
    by (simp add: eval_defs example_five_tokens_def)
  with run2 a show ?thesis by blast
qed

section \<open>Claims about the shared prompt\<close>



section \<open>Claims about the grouping pass\<close>

text \<open>
  C8. The grouping pass assigns as \<^verbatim>\<open>prompt_length\<close> the largest \<open>k\<close> such that every sibling has
  at least \<open>k\<close> tokens and all siblings agree on the token id of every column below \<open>k\<close>; it is 0
  when there are no siblings. Every sibling receives the same drawn prompt id, a signed 64-bit
  value, and the first \<^verbatim>\<open>prompt_length\<close> entries of its assistant mask are zero; the rest of the
  mask and the token ids are unchanged.
\<close>

theorem grouping_assigns_common_prompt:
  fixes w rs
  defines "k \<equiv> common_prompt_length rs"
  defines "out \<equiv> group_tokenized_results w rs"
  shows "(rs = [] \<longrightarrow> k = 0)
       \<and> (\<forall>r \<in> set rs. k \<le> length (token_ids r))
       \<and> (\<forall>i < k. \<forall>r \<in> set rs. \<forall>r' \<in> set rs. token_ids r ! i = token_ids r' ! i)
       \<and> (\<forall>k'. rs \<noteq> [] \<and> (\<forall>r \<in> set rs. k' \<le> length (token_ids r))
               \<and> (\<forall>i < k'. \<forall>r \<in> set rs. \<forall>r' \<in> set rs. token_ids r ! i = token_ids r' ! i)
             \<longrightarrow> k' \<le> k)
       \<and> length out = length rs
       \<and> (\<forall>j < length rs.
             prompt_id (out ! j) = sint w
           \<and> prompt_length (out ! j) = int k
           \<and> take k (assistant_mask (out ! j)) = replicate k 0
           \<and> drop k (assistant_mask (out ! j)) = drop k (assistant_mask (rs ! j))
           \<and> token_ids (out ! j) = token_ids (rs ! j))
       \<and> - (2 ^ 63) \<le> sint w \<and> sint w < 2 ^ 63"
proof -
  have a: "rs = [] \<longrightarrow> k = 0"
    by (simp add: k_def common_prompt_length_Nil)
  have b: "\<forall>r \<in> set rs. k \<le> length (token_ids r)"
    by (simp add: k_def common_prompt_length_le)
  have c: "\<forall>i < k. \<forall>r \<in> set rs. \<forall>r' \<in> set rs. token_ids r ! i = token_ids r' ! i"
    unfolding k_def by (blast intro: common_prompt_length_same)
  have d: "\<forall>k'. rs \<noteq> [] \<and> (\<forall>r \<in> set rs. k' \<le> length (token_ids r))
               \<and> (\<forall>i < k'. \<forall>r \<in> set rs. \<forall>r' \<in> set rs. token_ids r ! i = token_ids r' ! i)
             \<longrightarrow> k' \<le> k"
    unfolding k_def by (blast intro: common_prompt_length_greatest)
  have e: "length out = length rs"
    by (simp add: out_def group_tokenized_results_def Let_def)
  have f: "\<forall>j < length rs.
             prompt_id (out ! j) = sint w
           \<and> prompt_length (out ! j) = int k
           \<and> take k (assistant_mask (out ! j)) = replicate k 0
           \<and> drop k (assistant_mask (out ! j)) = drop k (assistant_mask (rs ! j))
           \<and> token_ids (out ! j) = token_ids (rs ! j)"
    by (simp add: out_def k_def group_tokenized_results_def zero_prefix_def Let_def)
  have g: "- (2 ^ 63) \<le> sint w \<and> sint w < 2 ^ 63"
    using sint_ge [of w] sint_lt [of w] by simp
  from a b c d e f g show ?thesis by blast
qed

theorem grouping_assigns_common_prompt_witness:
  "common_prompt_length example_siblings = 2
   \<and> prompt_id (group_tokenized_results 17 example_siblings ! 1) = 17
   \<and> take 2 (assistant_mask (group_tokenized_results 17 example_siblings ! 0)) = [0, 0]"
proof -
  have len: "length example_siblings = 2"
    by (simp add: example_siblings_def)
  have k: "common_prompt_length example_siblings = 2"
    by (simp add: common_prompt_length_def zip_star_def example_siblings_def example_result_def)
  have T: "\<forall>j < 2.
             prompt_id (group_tokenized_results 17 example_siblings ! j) = sint (17 :: 64 word)
           \<and> take 2 (assistant_mask (group_tokenized_results 17 example_siblings ! j)) = replicate 2 0"
    using grouping_assigns_common_prompt [of example_siblings 17] unfolding len k by blast
  from T have "prompt_id (group_tokenized_results 17 example_siblings ! 1) = 17"
    by simp
  moreover from T have "take 2 (assistant_mask (group_tokenized_results 17 example_siblings ! 0)) = [0, 0]"
    by (simp add: numeral_2_eq_2)
  ultimately show ?thesis using k by blast
qed

section \<open>Claims about the storage adapter\<close>

text \<open>
  With at least two sequences of at least two positions, the tensors read from a directory
  have the shape the descriptor names.
\<close>

lemma packed_tensors_from_dir_shape_wide:
  assumes "2 \<le> n" and "2 \<le> s"
  shows "packed_tensors_from_dir_shape n s = Inr [n, s]"
proof -
  from assms have "n * s \<noteq> 0" "n \<noteq> 1" "s \<noteq> 1" by simp_all
  then show ?thesis
    by (simp add: packed_tensors_from_dir_shape_def view_rows_def squeeze_def bind_def)
qed

text \<open>
  C9 (the code departs from the claim). The descriptor of tensors with a single row of four
  positions is \<^verbatim>\<open>num_sequences = 1\<close>, \<^verbatim>\<open>sequence_length = 4\<close>; the tensors read back with it
  have the shape \<open>(4)\<close>, not \<open>(1, 4)\<close>: \<^verbatim>\<open>squeeze()\<close> has removed the row dimension together
  with the trailing one.
\<close>

theorem single_row_read_back_squeezed:
  "packed_tensors_from_dir_shape 1 4 = Inr [4]"
  by (simp add: packed_tensors_from_dir_shape_def view_rows_def squeeze_def bind_def)

section \<open>Claims about falsy log-probabilities\<close>

text \<open>
  C10. When the effective result carries a non-empty \<^verbatim>\<open>token_logprobs\<close> and the record overlaid
  on the \<open>k\<close>-th assistant position has the value 0.0 (or None), the logprobs channel holds NaN
  at that position: \<^verbatim>\<open>logprob or float("nan")\<close> replaces every falsy value.
\<close>

theorem falsy_logprob_is_nan:
  fixes rand seq_len tr st result0
  defines "st1 \<equiv> open_row seq_len st result0"
  defines "eff \<equiv> effective_result st1 result0"
  defines "ai \<equiv> assistant_indices (assistant_mask eff)"
  defines "offset \<equiv> length (last (logprobs_rows st1))"
  assumes run: "loop_body rand seq_len tr st result0 = Inr st'"
    and ns: "\<not> skipped seq_len tr result0"
    and lps: "token_logprobs eff = Some lps" "lps \<noteq> []"
    and k: "k < length ai"
    and falsy: "logprob (lps ! (length lps - length ai + k)) = Some (Fin 0)
                \<or> logprob (lps ! (length lps - length ai + k)) = None"
    and kept: "tr \<longrightarrow> int (ai ! k + offset) < seq_len"
  shows "last (logprobs_rows st') ! (ai ! k + offset) = NaN"
proof -
  from loop_body_Inr [OF run ns] obtain st2 where
    app: "append_result rand st1 result0 = Inr st2"
    and st': "st' = (if tr then truncate_rows seq_len st2 else st2)"
    by (auto simp: st1_def)
  from last_logprobs_append_result [OF app]
  have ov: "overlay_logprobs eff offset (last (logprobs_rows st1) @ replicate (length (token_ids eff)) NaN)
        = Inr (last (logprobs_rows st2))"
    by (simp add: eff_def offset_def)
  from overlay_logprobs_nth [OF ov lps] k
  have "last (logprobs_rows st2) ! (ai ! k + offset)
          = or_nan (logprob (lps ! (length lps - length ai + k)))"
    by (simp add: ai_def)
  with falsy have v: "last (logprobs_rows st2) ! (ai ! k + offset) = NaN"
    by auto
  show ?thesis
  proof (cases tr)
    case True
    with kept st' v show ?thesis
      by (simp add: truncate_rows_def slice_to_nth)
  next
    case False
    with st' v show ?thesis by simp
  qed
qed

theorem falsy_logprob_is_nan_witness:
  "\<exists>st'. loop_body example_rand 4 True init_state example_surplus_logprobs = Inr st'
     \<and> last (logprobs_rows st') ! 0 = NaN"
proof -
  obtain st' where run: "loop_body example_rand 4 True init_state example_surplus_logprobs = Inr st'"
    by (simp add: eval_defs example_surplus_logprobs_def)
  have "last (logprobs_rows st') ! 0 = NaN"
    using falsy_logprob_is_nan [OF run, of _ 0]
    by (simp add: eval_defs example_surplus_logprobs_def)
  with run show ?thesis by blast
qed

end
